theory Spec2Isabelle
  imports Main "HOL-Library.Word" "HOL-Library.Char_ord" "HOL-Library.List_Lexorder"
    "HOL-Library.AList"
begin

unbundle bit_operations_syntax

section \<open>JavaScript values used by the storage engine\<close>

text \<open>
  A JavaScript string is modelled as an Isabelle \<^typ>\<open>string\<close>: a sequence of code units,
  here the code units 0..255.  Strings are compared as JavaScript compares them, code unit
  by code unit (the lexicographic order of \<^typ>\<open>char list\<close>).  A \<open>Buffer\<close> or
  \<open>Uint8Array\<close> is a list of bytes.  A number that can be large (a hash, a 32-bit field
  of a file, the clock) is an \<^typ>\<open>int\<close>; a position in a list or a buffer is a
  \<^typ>\<open>nat\<close>.  Every exception the code can raise is a value of \<open>error\<close>.
\<close>

type_synonym byte = "8 word"

datatype error = RangeError | InvalidSSTable | ENOENT | TypeError

text \<open>\<open>ToInt32\<close> and \<open>ToUint32\<close> of an integer-valued number.\<close>

definition ToInt32 :: "int \<Rightarrow> int" where
  "ToInt32 x = signed_take_bit 31 x"

definition ToUint32 :: "int \<Rightarrow> int" where
  "ToUint32 x = take_bit 32 x"

text \<open>
  The product of two numbers is the exact product rounded to the nearest double
  (53 significant bits, ties to the even significand).  \<open>ulp53 a\<close> is the distance between
  neighbouring doubles at magnitude \<open>a\<close>.
\<close>

function ulp53 :: "int \<Rightarrow> int" where
  "ulp53 a = (if a < 2 ^ 53 then 1 else 2 * ulp53 (a div 2))"
  by pat_completeness auto
termination
  by (relation "measure nat") auto

definition round_half_even :: "int \<Rightarrow> int \<Rightarrow> int" where
  "round_half_even d a =
     (let q = a div d; r = a mod d
      in if 2 * r < d then q * d
         else if d < 2 * r then (q + 1) * d
         else if even q then q * d else (q + 1) * d)"

definition js_mul :: "int \<Rightarrow> int \<Rightarrow> int" where
  "js_mul x y =
     (let p = x * y; a = \<bar>p\<bar>
      in sgn p * round_half_even (ulp53 a) a)"

text \<open>The remainder \<open>a % b\<close> has the sign of the dividend; \<open>None\<close> is \<open>NaN\<close>.\<close>

definition js_rem :: "int \<Rightarrow> int \<Rightarrow> int option" where
  "js_rem a b = (if b = 0 then None else Some (sgn a * (\<bar>a\<bar> mod \<bar>b\<bar>)))"

text \<open>\<open>x >>> 3\<close> and \<open>x & 7\<close>; \<open>NaN\<close> converts to 0.\<close>

definition ushr3 :: "int option \<Rightarrow> int" where
  "ushr3 x = (case x of None \<Rightarrow> 0 | Some b \<Rightarrow> drop_bit 3 (ToUint32 b))"

definition and7 :: "int option \<Rightarrow> int" where
  "and7 x = (case x of None \<Rightarrow> 0 | Some b \<Rightarrow> ToInt32 b AND 7)"

section \<open>Bloom filter (bloom-filter.js)\<close>

definition BLOOM_FILTER_SIZE :: nat where
  "BLOOM_FILTER_SIZE = 1024"

definition BLOOM_HASH_COUNT :: nat where
  "BLOOM_HASH_COUNT = 7"

record BloomFilter =
  bsize :: nat
  hashCount :: nat
  bits :: "byte list"

text \<open>The constructor: \<open>new Uint8Array(Math.ceil(size / 8))\<close> is zero-filled.\<close>

definition BloomFilter_new :: "nat \<Rightarrow> nat \<Rightarrow> BloomFilter" where
  "BloomFilter_new sz hc =
     \<lparr>bsize = sz, hashCount = hc, bits = replicate ((sz + 7) div 8) 0\<rparr>"

text \<open>
  \<open>_hash\<close> (here \<open>hash_of\<close>): the seed is xor-ed in as a signed 32-bit value; every round xors the code
  unit in (signed 32-bit), multiplies as a double and keeps the low 32 bits unsigned.
\<close>

fun hash_loop :: "int \<Rightarrow> string \<Rightarrow> int" where
  "hash_loop h [] = h"
| "hash_loop h (c # cs) =
     hash_loop (ToUint32 (js_mul (ToInt32 h XOR ToInt32 (of_char c)) 16777619)) cs"

definition hash_of :: "BloomFilter \<Rightarrow> string \<Rightarrow> nat \<Rightarrow> int option" where
  "hash_of bf key seed =
     js_rem (hash_loop (ToInt32 2166136261 XOR ToInt32 (int seed)) key) (int (bsize bf))"

text \<open>
  \<open>this.bits[byteIndex] |= (1 << bitIndex)\<close>: a store outside the typed array is ignored
  (\<open>byteIndex\<close> comes from \<open>>>>\<close> and is never negative).
\<close>

definition set_bit_at :: "byte list \<Rightarrow> int option \<Rightarrow> byte list" where
  "set_bit_at bs b =
     (let byteIndex = ushr3 b; bitIndex = and7 b
      in if byteIndex < int (length bs)
         then bs[nat byteIndex := (bs ! nat byteIndex) OR push_bit (nat bitIndex) 1]
         else bs)"

text \<open>
  \<open>(this.bits[byteIndex] & (1 << bitIndex)) === 0\<close>: a read outside the typed array is
  \<open>undefined\<close>, which \<open>&\<close> converts to 0.
\<close>

definition bit_clear_at :: "byte list \<Rightarrow> int option \<Rightarrow> bool" where
  "bit_clear_at bs b =
     (let byteIndex = ushr3 b; bitIndex = and7 b
      in if byteIndex < int (length bs)
         then (bs ! nat byteIndex) AND push_bit (nat bitIndex) 1 = 0
         else True)"

text \<open>\<open>add\<close>: the loop \<open>for (let i = 0; i < this.hashCount; i++)\<close>, from index \<open>i\<close> on.\<close>

function add_loop :: "BloomFilter \<Rightarrow> string \<Rightarrow> nat \<Rightarrow> BloomFilter" where
  "add_loop bf key i =
     (if i < hashCount bf
      then add_loop (bf\<lparr>bits := set_bit_at (bits bf) (hash_of bf key i)\<rparr>) key (i + 1)
      else bf)"
  by pat_completeness auto
termination
  by (relation "measure (\<lambda>(bf, key, i). hashCount bf - i)") auto

definition add :: "BloomFilter \<Rightarrow> string \<Rightarrow> BloomFilter" where
  "add bf key = add_loop bf key 0"

text \<open>\<open>mightContain\<close>: the same loop, returning \<open>false\<close> at the first clear bit.\<close>

function mightContain_loop :: "BloomFilter \<Rightarrow> string \<Rightarrow> nat \<Rightarrow> bool" where
  "mightContain_loop bf key i =
     (if i < hashCount bf
      then (if bit_clear_at (bits bf) (hash_of bf key i) then False
            else mightContain_loop bf key (i + 1))
      else True)"
  by pat_completeness auto
termination
  by (relation "measure (\<lambda>(bf, key, i). hashCount bf - i)") auto

definition mightContain :: "BloomFilter \<Rightarrow> string \<Rightarrow> bool" where
  "mightContain bf key = mightContain_loop bf key 0"

text \<open>A filter after \<open>add\<close> of each key of a list, in order.\<close>

fun add_all :: "BloomFilter \<Rightarrow> string list \<Rightarrow> BloomFilter" where
  "add_all bf [] = bf"
| "add_all bf (k # ks) = add_all (add bf k) ks"

subsection \<open>Buffer reads and writes\<close>

text \<open>
  \<open>writeUInt8\<close>, \<open>writeUInt16LE\<close>, \<open>writeUInt32LE\<close> give the bytes written; a value out
  of range raises.  The reads raise when the position is not inside the buffer.
\<close>

definition writeUInt8 :: "int \<Rightarrow> error + byte list" where
  "writeUInt8 v = (if 0 \<le> v \<and> v < 2 ^ 8 then Inr [word_of_int v] else Inl RangeError)"

definition writeUInt16LE :: "int \<Rightarrow> error + byte list" where
  "writeUInt16LE v =
     (if 0 \<le> v \<and> v < 2 ^ 16 then Inr [word_of_int v, word_of_int (v div 2 ^ 8)]
      else Inl RangeError)"

definition writeUInt32LE :: "int \<Rightarrow> error + byte list" where
  "writeUInt32LE v =
     (if 0 \<le> v \<and> v < 2 ^ 32
      then Inr [word_of_int v, word_of_int (v div 2 ^ 8), word_of_int (v div 2 ^ 16),
                word_of_int (v div 2 ^ 24)]
      else Inl RangeError)"

definition readUInt8 :: "byte list \<Rightarrow> nat \<Rightarrow> error + int" where
  "readUInt8 b pos =
     (if pos + 1 \<le> length b then Inr (uint (b ! pos)) else Inl RangeError)"

definition readUInt16LE :: "byte list \<Rightarrow> nat \<Rightarrow> error + int" where
  "readUInt16LE b pos =
     (if pos + 2 \<le> length b
      then Inr (uint (b ! pos) + 2 ^ 8 * uint (b ! (pos + 1)))
      else Inl RangeError)"

definition readUInt32LE :: "byte list \<Rightarrow> nat \<Rightarrow> error + int" where
  "readUInt32LE b pos =
     (if pos + 4 \<le> length b
      then Inr (uint (b ! pos) + 2 ^ 8 * uint (b ! (pos + 1))
                + 2 ^ 16 * uint (b ! (pos + 2)) + 2 ^ 24 * uint (b ! (pos + 3)))
      else Inl RangeError)"

subsection \<open>Serialisation\<close>

text \<open>\<open>serialize\<close>: size (4 bytes LE), hashCount (1 byte), then the bit array.\<close>

definition serialize :: "BloomFilter \<Rightarrow> error + byte list" where
  "serialize bf =
     (case writeUInt32LE (int (bsize bf)) of
        Inl e \<Rightarrow> Inl e
      | Inr sz \<Rightarrow>
          (case writeUInt8 (int (hashCount bf)) of
             Inl e \<Rightarrow> Inl e
           | Inr hc \<Rightarrow> Inr (sz @ hc @ bits bf)))"

text \<open>
  \<open>deserialize\<close>: \<open>buf.copy(bf.bits, 0, 5)\<close> copies as many bytes as both sides have.
\<close>

definition deserialize :: "byte list \<Rightarrow> error + BloomFilter" where
  "deserialize b =
     (case readUInt32LE b 0 of
        Inl e \<Rightarrow> Inl e
      | Inr sz \<Rightarrow>
          (case readUInt8 b 4 of
             Inl e \<Rightarrow> Inl e
           | Inr hc \<Rightarrow>
               (let bf = BloomFilter_new (nat sz) (nat hc); src = drop 5 b
                in Inr (bf\<lparr>bits := take (length (bits bf)) src
                                    @ drop (length src) (bits bf)\<rparr>))))"

section \<open>Strings, bytes and files\<close>

text \<open>
  UTF-8: a code unit below 128 is one byte, a code unit from 128 to 255 is two bytes.
  \<open>Buffer.byteLength(s, 'utf8')\<close> is the length of the encoding.
\<close>

definition utf8_char :: "char \<Rightarrow> byte list" where
  "utf8_char c =
     (let n = (of_char c :: nat)
      in if n < 128 then [of_nat n] else [of_nat (192 + n div 64), of_nat (128 + n mod 64)])"

definition utf8_encode :: "string \<Rightarrow> byte list" where
  "utf8_encode s = concat (map utf8_char s)"

definition byteLength :: "string \<Rightarrow> nat" where
  "byteLength s = length (utf8_encode s)"

text \<open>
  Decoding is exact on every byte sequence that encodes a string of the model.  A byte
  sequence that decodes to a code unit above 255, or that is not UTF-8, has no string in
  the model; there each offending byte yields the placeholder \<open>CHR 0xFF\<close>.
\<close>

fun utf8_decode :: "byte list \<Rightarrow> string" where
  "utf8_decode [] = []"
| "utf8_decode [b] = (if unat b < 128 then [char_of (unat b)] else [CHR 0xFF])"
| "utf8_decode (b # b2 # bs) =
     (if unat b < 128 then char_of (unat b) # utf8_decode (b2 # bs)
      else if 194 \<le> unat b \<and> unat b < 196 \<and> 128 \<le> unat b2 \<and> unat b2 < 192
      then char_of (64 * (unat b - 192) + (unat b2 - 128)) # utf8_decode bs
      else CHR 0xFF # utf8_decode (b2 # bs))"

text \<open>\<open>buf.toString('utf8', start, end)\<close> and \<open>buf.subarray(start, end)\<close> clamp to the buffer.\<close>

definition subarray :: "byte list \<Rightarrow> nat \<Rightarrow> nat \<Rightarrow> byte list" where
  "subarray buf start fin = take (fin - start) (drop start buf)"

definition toString :: "byte list \<Rightarrow> nat \<Rightarrow> nat \<Rightarrow> string" where
  "toString buf start fin = utf8_decode (subarray buf start fin)"

text \<open>
  The data directory: file names with their contents.  \<open>Date.now()\<close> is printed in
  decimal into file names and log lines.
\<close>

type_synonym fs = "(string \<times> byte list) list"

definition existsSync :: "fs \<Rightarrow> string \<Rightarrow> bool" where
  "existsSync files p = (map_of files p \<noteq> None)"

definition readFileSync :: "fs \<Rightarrow> string \<Rightarrow> error + byte list" where
  "readFileSync files p = (case map_of files p of None \<Rightarrow> Inl ENOENT | Some b \<Rightarrow> Inr b)"

definition writeFileSync :: "fs \<Rightarrow> string \<Rightarrow> byte list \<Rightarrow> fs" where
  "writeFileSync files p b = AList.update p b files"

definition appendFileSync :: "fs \<Rightarrow> string \<Rightarrow> byte list \<Rightarrow> fs" where
  "appendFileSync files p b =
     (case map_of files p of
        None \<Rightarrow> AList.update p b files
      | Some old \<Rightarrow> AList.update p (old @ b) files)"

definition unlinkSync :: "fs \<Rightarrow> string \<Rightarrow> error + fs" where
  "unlinkSync files p =
     (if existsSync files p then Inr (AList.delete p files) else Inl ENOENT)"

function digits :: "int \<Rightarrow> string" where
  "digits n =
     (if n < 10 then [char_of (48 + n)] else digits (n div 10) @ [char_of (48 + n mod 10)])"
  by pat_completeness auto
termination
  by (relation "measure nat") auto

definition decimal :: "int \<Rightarrow> string" where
  "decimal n = (if n < 0 then CHR ''-'' # digits (- n) else digits n)"

section \<open>Write-ahead log (wal.js)\<close>

text \<open>The constructor creates the log file when it does not exist.\<close>

definition WAL_new :: "fs \<Rightarrow> string \<Rightarrow> fs" where
  "WAL_new files filePath =
     (if existsSync files filePath then files else writeFileSync files filePath [])"

text \<open>\<open>append\<close>: the line \<open>ts|op|key|value\<close> and a newline; \<open>ts\<close> is \<open>Date.now()\<close>.\<close>

definition WAL_line :: "int \<Rightarrow> string \<Rightarrow> string \<Rightarrow> string \<Rightarrow> string" where
  "WAL_line ts opn k v = decimal ts @ ''|'' @ opn @ ''|'' @ k @ ''|'' @ v @ [CHR 0x0A]"

definition WAL_append :: "fs \<Rightarrow> string \<Rightarrow> int \<Rightarrow> string \<Rightarrow> string \<Rightarrow> string \<Rightarrow> fs" where
  "WAL_append files filePath ts opn k v =
     appendFileSync files filePath (utf8_encode (WAL_line ts opn k v))"

text \<open>
  \<open>String.prototype.trim\<close> removes white space and line terminators at both ends; among
  the code units of the model these are 9 to 13, 32 and 160.
\<close>

definition is_js_space :: "char \<Rightarrow> bool" where
  "is_js_space c = (let n = (of_char c :: nat) in (9 \<le> n \<and> n \<le> 13) \<or> n = 32 \<or> n = 160)"

definition trim :: "string \<Rightarrow> string" where
  "trim s = rev (dropWhile is_js_space (rev (dropWhile is_js_space s)))"

text \<open>\<open>s.split('\n')\<close>: the pieces between newlines; the empty string gives one empty piece.\<close>

fun split_nl :: "string \<Rightarrow> string list" where
  "split_nl [] = [[]]"
| "split_nl (c # cs) =
     (if c = CHR 0x0A then [] # split_nl cs
      else (case split_nl cs of [] \<Rightarrow> [[c]] | l # ls \<Rightarrow> (c # l) # ls))"

text \<open>\<open>s.indexOf(c, from)\<close>: the first index at or after \<open>from\<close>, or \<open>-1\<close>.\<close>

fun index_in :: "char \<Rightarrow> string \<Rightarrow> nat \<Rightarrow> int" where
  "index_in c [] base = - 1"
| "index_in c (x # xs) base = (if x = c then int base else index_in c xs (base + 1))"

definition indexOf :: "string \<Rightarrow> char \<Rightarrow> int \<Rightarrow> int" where
  "indexOf s c from = (let f = nat from in index_in c (drop f s) f)"

text \<open>\<open>s.substring(a, b)\<close> clamps both indices and swaps them when \<open>a > b\<close>.\<close>

definition substring :: "string \<Rightarrow> int \<Rightarrow> int \<Rightarrow> string" where
  "substring s a b =
     (let a' = min (nat a) (length s); b' = min (nat b) (length s);
          lo = min a' b'; hi = max a' b'
      in take (hi - lo) (drop lo s))"

definition substring_from :: "string \<Rightarrow> int \<Rightarrow> string" where
  "substring_from s a = drop (nat a) s"

text \<open>One line of the log: skipped when empty or when a delimiter is missing.\<close>

definition parse_line :: "string \<Rightarrow> (string \<times> string \<times> string) option" where
  "parse_line line =
     (if line = [] then None
      else
        (let pipeIdx1 = indexOf line (CHR ''|'') 0;
             pipeIdx2 = indexOf line (CHR ''|'') (pipeIdx1 + 1);
             pipeIdx3 = indexOf line (CHR ''|'') (pipeIdx2 + 1)
         in if pipeIdx1 = - 1 \<or> pipeIdx2 = - 1 \<or> pipeIdx3 = - 1 then None
            else Some (substring line (pipeIdx1 + 1) pipeIdx2,
                       substring line (pipeIdx2 + 1) pipeIdx3,
                       substring_from line (pipeIdx3 + 1))))"

definition WAL_recover :: "fs \<Rightarrow> string \<Rightarrow> (string \<times> string \<times> string) list" where
  "WAL_recover files filePath =
     (case map_of files filePath of
        None \<Rightarrow> []
      | Some bytes \<Rightarrow>
          (let content = trim (utf8_decode bytes)
           in if length content = 0 then []
              else List.map_filter parse_line (split_nl content)))"

definition WAL_clear :: "fs \<Rightarrow> string \<Rightarrow> fs" where
  "WAL_clear files filePath = writeFileSync files filePath []"

section \<open>MemTable: the skip list (memtable.js)\<close>

definition TOMBSTONE :: string where
  "TOMBSTONE = ''__TOMBSTONE__''"

definition MAX_LEVEL :: nat where
  "MAX_LEVEL = 16"

text \<open>
  A node is its key, its value and its number of forward pointers.  The list holds the
  nodes in the order of the bottom level; the forward pointer of level \<open>i\<close> leads to the
  next node with more than \<open>i\<close> pointers, which is how \<open>put\<close> splices a node in.
  \<open>level\<close> is the highest level in use, \<open>count\<close> and \<open>byteSize\<close> are the counters the
  code keeps.
\<close>

type_synonym node = "string \<times> string \<times> nat"

record SkipList =
  nodes :: "node list"
  level :: nat
  count :: nat
  byteSize :: int

definition SkipList_new :: SkipList where
  "SkipList_new = \<lparr>nodes = [], level = 0, count = 0, byteSize = 0\<rparr>"

text \<open>
  \<open>_randomLevel\<close>: \<open>rnd n\<close> tells whether the \<open>n\<close>-th call of \<open>Math.random()\<close> is
  below \<open>P\<close>.
\<close>

function randomLevel :: "(nat \<Rightarrow> bool) \<Rightarrow> nat \<Rightarrow> nat" where
  "randomLevel rnd lvl =
     (if rnd lvl \<and> lvl < MAX_LEVEL - 1 then randomLevel rnd (lvl + 1) else lvl)"
  by pat_completeness auto
termination
  by (relation "measure (\<lambda>(rnd, lvl). MAX_LEVEL - 1 - lvl)") auto

text \<open>
  The inner loop of a search at level \<open>i\<close>, on the nodes after the current one:
  \<open>while (current.forward[i] !== null && current.forward[i].key < key)\<close>.
\<close>

function advance :: "nat \<Rightarrow> string \<Rightarrow> node list \<Rightarrow> node list" where
  "advance i k rest =
     (case dropWhile (\<lambda>n. snd (snd n) \<le> i) rest of
        [] \<Rightarrow> rest
      | n # rest' \<Rightarrow> if fst n < k then advance i k rest' else rest)"
  by pat_completeness auto
termination
proof (relation "measure (\<lambda>(i, k, rest). length rest)")
  show "wf (measure (\<lambda>(i, k, rest). length rest))"
    by simp
next
  fix i :: nat and k :: string and rest :: "node list" and n rest'
  assume "dropWhile (\<lambda>n. snd (snd n) \<le> i) rest = n # rest'"
  then have "length (n # rest') \<le> length rest"
    by (metis length_dropWhile_le)
  then show "((i, k, rest'), (i, k, rest)) \<in> measure (\<lambda>(i, k, rest). length rest)"
    by simp
qed

text \<open>The outer loop \<open>for (let i = this.level; i >= 0; i--)\<close>.\<close>

fun descend :: "nat \<Rightarrow> string \<Rightarrow> node list \<Rightarrow> node list" where
  "descend 0 k rest = advance 0 k rest"
| "descend (Suc i) k rest = descend i k (advance (Suc i) k rest)"

text \<open>\<open>get\<close>: \<open>current.forward[0]\<close> after the search is the head of what is left.\<close>

definition SkipList_get :: "SkipList \<Rightarrow> string \<Rightarrow> string option" where
  "SkipList_get sl k =
     (case descend (level sl) k (nodes sl) of
        [] \<Rightarrow> None
      | n # rest \<Rightarrow> if fst n = k then Some (fst (snd n)) else None)"

text \<open>
  \<open>put\<close>: an existing key keeps its node and has its value replaced; a new key gets a
  node of a random height right after its predecessors.
\<close>

definition SkipList_put :: "SkipList \<Rightarrow> (nat \<Rightarrow> bool) \<Rightarrow> string \<Rightarrow> string \<Rightarrow> SkipList" where
  "SkipList_put sl rnd k v =
     (let rest = descend (level sl) k (nodes sl);
          before = take (length (nodes sl) - length rest) (nodes sl)
      in case rest of
           n # rest' \<Rightarrow>
             if fst n = k
             then sl\<lparr>nodes := before @ (k, v, snd (snd n)) # rest',
                     byteSize := byteSize sl - int (byteLength (fst (snd n))) + int (byteLength v)\<rparr>
             else
               (let newLevel = randomLevel rnd 0
                in sl\<lparr>nodes := before @ (k, v, newLevel + 1) # rest,
                       level := max (level sl) newLevel,
                       count := count sl + 1,
                       byteSize := byteSize sl + int (byteLength k + byteLength v)\<rparr>)
         | [] \<Rightarrow>
             (let newLevel = randomLevel rnd 0
              in sl\<lparr>nodes := before @ (k, v, newLevel + 1) # rest,
                     level := max (level sl) newLevel,
                     count := count sl + 1,
                     byteSize := byteSize sl + int (byteLength k + byteLength v)\<rparr>))"

definition SkipList_delete :: "SkipList \<Rightarrow> (nat \<Rightarrow> bool) \<Rightarrow> string \<Rightarrow> SkipList" where
  "SkipList_delete sl rnd k = SkipList_put sl rnd k TOMBSTONE"

definition SkipList_entries :: "SkipList \<Rightarrow> (string \<times> string) list" where
  "SkipList_entries sl = map (\<lambda>n. (fst n, fst (snd n))) (nodes sl)"

definition SkipList_clear :: "SkipList \<Rightarrow> SkipList" where
  "SkipList_clear sl = SkipList_new"

section \<open>SSTable writer and reader (sstable.js)\<close>

definition SSTABLE_MAGIC :: int where
  "SSTABLE_MAGIC = 0x4c534d54"

text \<open>The format version of \<open>lsm.config.js\<close>.\<close>

definition SSTABLE_VERSION :: int where
  "SSTABLE_VERSION = 1"

definition SPARSE_INDEX_INTERVAL :: nat where
  "SPARSE_INDEX_INTERVAL = 16"

type_synonym entry = "string \<times> string"

text \<open>
  The data block loop of \<open>SSTableWriter.write\<close>, with its variables: the index \<open>i\<close>, the
  running \<open>offset\<close>, the Bloom filter, the sparse index and the bytes pushed so far.
\<close>

fun write_entries ::
  "entry list \<Rightarrow> nat \<Rightarrow> nat \<Rightarrow> BloomFilter \<Rightarrow> (string \<times> nat) list \<Rightarrow> byte list
   \<Rightarrow> error + (nat \<times> BloomFilter \<times> (string \<times> nat) list \<times> byte list)" where
  "write_entries [] i offset bf sidx bufs = Inr (offset, bf, sidx, bufs)"
| "write_entries ((k, v) # es) i offset bf sidx bufs =
     (case writeUInt16LE (int (byteLength k)) of
        Inl e \<Rightarrow> Inl e
      | Inr kl \<Rightarrow>
          (case writeUInt32LE (int (byteLength v)) of
             Inl e \<Rightarrow> Inl e
           | Inr vl \<Rightarrow>
               write_entries es (i + 1) (offset + 6 + byteLength k + byteLength v)
                 (add bf k)
                 (if i mod SPARSE_INDEX_INTERVAL = 0 then sidx @ [(k, offset)] else sidx)
                 (bufs @ kl @ vl @ utf8_encode k @ utf8_encode v)))"

text \<open>The index block loop.\<close>

fun write_index :: "(string \<times> nat) list \<Rightarrow> nat \<Rightarrow> byte list \<Rightarrow> error + (nat \<times> byte list)" where
  "write_index [] offset bufs = Inr (offset, bufs)"
| "write_index ((k, off) # rest) offset bufs =
     (case writeUInt16LE (int (byteLength k)) of
        Inl e \<Rightarrow> Inl e
      | Inr kl \<Rightarrow>
          (case writeUInt32LE (int off) of
             Inl e \<Rightarrow> Inl e
           | Inr ol \<Rightarrow>
               write_index rest (offset + 6 + byteLength k) (bufs @ kl @ ol @ utf8_encode k)))"

text \<open>The header, and the footer for the three offsets.\<close>

definition header_bytes :: "nat \<Rightarrow> error + byte list" where
  "header_bytes n =
     (case writeUInt32LE SSTABLE_MAGIC of
        Inl e \<Rightarrow> Inl e
      | Inr magic \<Rightarrow>
          (case writeUInt8 SSTABLE_VERSION of
             Inl e \<Rightarrow> Inl e
           | Inr version \<Rightarrow>
               (case writeUInt32LE (int n) of
                  Inl e \<Rightarrow> Inl e
                | Inr cnt \<Rightarrow> Inr (magic @ version @ cnt))))"

definition footer_bytes :: "nat \<Rightarrow> nat \<Rightarrow> nat \<Rightarrow> error + byte list" where
  "footer_bytes dataOff indexOff bloomOff =
     (case writeUInt32LE (int dataOff) of
        Inl e \<Rightarrow> Inl e
      | Inr f0 \<Rightarrow>
          (case writeUInt32LE (int indexOff) of
             Inl e \<Rightarrow> Inl e
           | Inr f1 \<Rightarrow>
               (case writeUInt32LE (int bloomOff) of
                  Inl e \<Rightarrow> Inl e
                | Inr f2 \<Rightarrow>
                    (case writeUInt32LE SSTABLE_MAGIC of
                       Inl e \<Rightarrow> Inl e
                     | Inr magic \<Rightarrow> Inr (f0 @ f1 @ f2 @ magic)))))"

text \<open>The bytes \<open>SSTableWriter.write\<close> hands to \<open>writeFileSync\<close>.\<close>

definition SSTable_bytes :: "entry list \<Rightarrow> error + byte list" where
  "SSTable_bytes entries =
     (case header_bytes (length entries) of
        Inl e \<Rightarrow> Inl e
      | Inr header \<Rightarrow>
          (case write_entries entries 0 9
                  (BloomFilter_new BLOOM_FILTER_SIZE BLOOM_HASH_COUNT) [] header of
             Inl e \<Rightarrow> Inl e
           | Inr (indexOff, bf, sidx, bufs) \<Rightarrow>
               (case write_index sidx indexOff bufs of
                  Inl e \<Rightarrow> Inl e
                | Inr (bloomOff, bufs') \<Rightarrow>
                    (case serialize bf of
                       Inl e \<Rightarrow> Inl e
                     | Inr bloomBuf \<Rightarrow>
                         (case footer_bytes 9 indexOff bloomOff of
                            Inl e \<Rightarrow> Inl e
                          | Inr footer \<Rightarrow> Inr (bufs' @ bloomBuf @ footer))))))"

definition SSTableWriter_write :: "fs \<Rightarrow> entry list \<Rightarrow> string \<Rightarrow> error + fs" where
  "SSTableWriter_write files entries p =
     (case SSTable_bytes entries of
        Inl e \<Rightarrow> Inl e
      | Inr bytes \<Rightarrow> Inr (writeFileSync files p bytes))"

record SSTableReader =
  filePath :: string
  buf :: "byte list"
  dataOffset :: nat
  indexOffset :: nat
  bloomOffset :: nat
  entryCount :: int
  bloom :: BloomFilter
  sparseIndex :: "(string \<times> nat) list"

text \<open>\<open>_parseIndex\<close>: the loop \<open>while (pos < end)\<close>.\<close>

function parseIndex_loop ::
  "byte list \<Rightarrow> nat \<Rightarrow> nat \<Rightarrow> (string \<times> nat) list \<Rightarrow> error + (string \<times> nat) list" where
  "parseIndex_loop b pos fin acc =
     (if pos < fin
      then (case readUInt16LE b pos of
              Inl e \<Rightarrow> Inl e
            | Inr keyLen \<Rightarrow>
                (case readUInt32LE b (pos + 2) of
                   Inl e \<Rightarrow> Inl e
                 | Inr off \<Rightarrow>
                     parseIndex_loop b (pos + 6 + nat keyLen) fin
                       (acc @ [(toString b (pos + 6) (pos + 6 + nat keyLen), nat off)])))
      else Inr acc)"
  by pat_completeness auto
termination
  by (relation "measure (\<lambda>(b, pos, fin, acc). fin - pos)") auto

text \<open>
  \<open>_parseFooter\<close>: the footer is the last 16 bytes (a shorter file makes the first read
  fail); both magic numbers are checked.
\<close>

definition parseFooter :: "byte list \<Rightarrow> error + (nat \<times> nat \<times> nat \<times> int)" where
  "parseFooter f =
     (if length f < 16 then Inl RangeError
      else
        (case readUInt32LE f (length f - 16) of
           Inl e \<Rightarrow> Inl e
         | Inr dataOff \<Rightarrow>
             (case readUInt32LE f (length f - 16 + 4) of
                Inl e \<Rightarrow> Inl e
              | Inr indexOff \<Rightarrow>
                  (case readUInt32LE f (length f - 16 + 8) of
                     Inl e \<Rightarrow> Inl e
                   | Inr bloomOff \<Rightarrow>
                       (case readUInt32LE f (length f - 16 + 12) of
                          Inl e \<Rightarrow> Inl e
                        | Inr magic \<Rightarrow>
                            if magic \<noteq> SSTABLE_MAGIC then Inl InvalidSSTable
                            else
                              (case readUInt32LE f 0 of
                                 Inl e \<Rightarrow> Inl e
                               | Inr headerMagic \<Rightarrow>
                                   if headerMagic \<noteq> SSTABLE_MAGIC then Inl InvalidSSTable
                                   else
                                     (case readUInt32LE f 5 of
                                        Inl e \<Rightarrow> Inl e
                                      | Inr cnt \<Rightarrow>
                                          Inr (nat dataOff, nat indexOff, nat bloomOff, cnt))))))))"

text \<open>
  \<open>SSTableReader.open\<close> on the bytes of the file: \<open>_parseFooter\<close>, \<open>_parseBloom\<close>,
  \<open>_parseIndex\<close>.
\<close>

definition SSTableReader_parse :: "string \<Rightarrow> byte list \<Rightarrow> error + SSTableReader" where
  "SSTableReader_parse p f =
     (case parseFooter f of
        Inl e \<Rightarrow> Inl e
      | Inr (dataOff, indexOff, bloomOff, cnt) \<Rightarrow>
          (case deserialize (subarray f bloomOff (length f - 16)) of
             Inl e \<Rightarrow> Inl e
           | Inr bf \<Rightarrow>
               (case parseIndex_loop f indexOff bloomOff [] of
                  Inl e \<Rightarrow> Inl e
                | Inr sidx \<Rightarrow>
                    Inr \<lparr>filePath = p, buf = f, dataOffset = dataOff,
                         indexOffset = indexOff, bloomOffset = bloomOff,
                         entryCount = cnt, bloom = bf, sparseIndex = sidx\<rparr>)))"

definition SSTableReader_open :: "fs \<Rightarrow> string \<Rightarrow> error + SSTableReader" where
  "SSTableReader_open files p =
     (case readFileSync files p of
        Inl e \<Rightarrow> Inl e
      | Inr f \<Rightarrow> SSTableReader_parse p f)"

text \<open>
  \<open>get\<close>, step 2: the walk over the sparse index, with \<open>scanStart\<close> and \<open>scanEnd\<close>; the
  walk stops at the first index key greater than the key.
\<close>

fun find_window :: "(string \<times> nat) list \<Rightarrow> string \<Rightarrow> nat \<Rightarrow> nat \<Rightarrow> nat \<times> nat" where
  "find_window [] k scanStart scanEnd = (scanStart, scanEnd)"
| "find_window ((k', off) # rest) k scanStart scanEnd =
     (if k' > k then (scanStart, off) else find_window rest k off scanEnd)"

text \<open>\<open>get\<close>, step 3: the linear scan \<open>while (pos < scanEnd)\<close>.\<close>

function scan_loop :: "byte list \<Rightarrow> string \<Rightarrow> nat \<Rightarrow> nat \<Rightarrow> error + string option" where
  "scan_loop b k pos scanEnd =
     (if pos < scanEnd
      then (case readUInt16LE b pos of
              Inl e \<Rightarrow> Inl e
            | Inr keyLen \<Rightarrow>
                (case readUInt32LE b (pos + 2) of
                   Inl e \<Rightarrow> Inl e
                 | Inr valLen \<Rightarrow>
                     if toString b (pos + 6) (pos + 6 + nat keyLen) = k
                     then Inr (Some (toString b (pos + 6 + nat keyLen)
                                       (pos + 6 + nat keyLen + nat valLen)))
                     else if toString b (pos + 6) (pos + 6 + nat keyLen) > k then Inr None
                     else scan_loop b k (pos + 6 + nat keyLen + nat valLen) scanEnd))
      else Inr None)"
  by pat_completeness auto
termination
  by (relation "measure (\<lambda>(b, k, pos, scanEnd). scanEnd - pos)") auto

definition SSTableReader_get :: "SSTableReader \<Rightarrow> string \<Rightarrow> error + string option" where
  "SSTableReader_get r k =
     (if \<not> mightContain (bloom r) k then Inr None
      else
        (case find_window (sparseIndex r) k (dataOffset r) (indexOffset r) of
           (scanStart, scanEnd) \<Rightarrow> scan_loop (buf r) k scanStart scanEnd))"

text \<open>\<open>entries\<close>: every record of the data block.\<close>

function entries_loop :: "byte list \<Rightarrow> nat \<Rightarrow> nat \<Rightarrow> entry list \<Rightarrow> error + entry list" where
  "entries_loop b pos fin acc =
     (if pos < fin
      then (case readUInt16LE b pos of
              Inl e \<Rightarrow> Inl e
            | Inr keyLen \<Rightarrow>
                (case readUInt32LE b (pos + 2) of
                   Inl e \<Rightarrow> Inl e
                 | Inr valLen \<Rightarrow>
                     entries_loop b (pos + 6 + nat keyLen + nat valLen) fin
                       (acc @ [(toString b (pos + 6) (pos + 6 + nat keyLen),
                                toString b (pos + 6 + nat keyLen)
                                  (pos + 6 + nat keyLen + nat valLen))])))
      else Inr acc)"
  by pat_completeness auto
termination
  by (relation "measure (\<lambda>(b, pos, fin, acc). fin - pos)") auto

definition SSTableReader_entries :: "SSTableReader \<Rightarrow> error + entry list" where
  "SSTableReader_entries r = entries_loop (buf r) (dataOffset r) (indexOffset r) []"

section \<open>Compaction (compaction.js)\<close>

definition SIZE_RATIO :: nat where
  "SIZE_RATIO = 4"

definition MAX_LEVELS :: nat where
  "MAX_LEVELS = 5"

text \<open>
  A table of a level is the object \<open>{ path, reader }\<close>; the levels are a \<open>Map\<close> from the
  level number to the array of its tables.  \<open>levels.get(lvl) || []\<close> is \<open>tables_at\<close>.
\<close>

record table =
  path :: string
  reader :: SSTableReader

type_synonym level_map = "nat \<rightharpoonup> table list"

definition tables_at :: "level_map \<Rightarrow> nat \<Rightarrow> table list" where
  "tables_at lv lvl = (case lv lvl of None \<Rightarrow> [] | Some ts \<Rightarrow> ts)"

subsection \<open>The k-way merge\<close>

text \<open>
  An iterator is the list of the entries it has not passed yet.  \<open>pick_min\<close> is the
  \<open>for\<close> loop over the iterators: \<open>i\<close> is the index, \<open>m\<close> holds \<open>minKey\<close> and \<open>minVal\<close>
  (\<open>None\<close> while \<open>minKey\<close> is \<open>null\<close>) and \<open>srcs\<close> is \<open>minSources\<close>.
\<close>

fun pick_min ::
  "entry list list \<Rightarrow> nat \<Rightarrow> entry option \<Rightarrow> nat list \<Rightarrow> entry option \<times> nat list" where
  "pick_min [] i m srcs = (m, srcs)"
| "pick_min ([] # its) i m srcs = pick_min its (i + 1) m srcs"
| "pick_min (((k, v) # es) # its) i None srcs = pick_min its (i + 1) (Some (k, v)) [i]"
| "pick_min (((k, v) # es) # its) i (Some (minKey, minVal)) srcs =
     (if k < minKey then pick_min its (i + 1) (Some (k, v)) [i]
      else if k = minKey then pick_min its (i + 1) (Some (minKey, minVal)) (srcs @ [i])
      else pick_min its (i + 1) (Some (minKey, minVal)) srcs)"

text \<open>\<open>for (const i of minSources) iterators[i].idx++\<close>; \<open>i\<close> is the index of the first iterator.\<close>

fun advance_iters :: "entry list list \<Rightarrow> nat \<Rightarrow> nat list \<Rightarrow> entry list list" where
  "advance_iters [] i srcs = []"
| "advance_iters (it # its) i srcs =
     (if i \<in> set srcs then tl it else it) # advance_iters its (i + 1) srcs"

lemma pick_min_source:
  "pick_min its i m srcs = (Some kv, srcs') \<Longrightarrow>
   (m \<noteq> None \<longrightarrow> (\<exists>j\<in>set srcs. j < i \<and> P j)) \<Longrightarrow>
   (\<And>j. i \<le> j \<Longrightarrow> j < i + length its \<Longrightarrow> its ! (j - i) \<noteq> [] \<Longrightarrow> P j) \<Longrightarrow>
   \<exists>j\<in>set srcs'. j < i + length its \<and> P j"
proof (induction its i m srcs rule: pick_min.induct)
  case (1 i m srcs)
  then show ?case by auto
next
  case (2 its i m srcs)
  have "\<exists>j\<in>set srcs'. j < i + 1 + length its \<and> P j"
  proof (rule "2.IH")
    show "pick_min its (i + 1) m srcs = (Some kv, srcs')"
      using "2.prems"(1) by simp
    show "m \<noteq> None \<longrightarrow> (\<exists>j\<in>set srcs. j < i + 1 \<and> P j)"
      using "2.prems"(2) by (auto intro: less_SucI)
    show "P j" if "i + 1 \<le> j" "j < i + 1 + length its" "its ! (j - (i + 1)) \<noteq> []" for j
      using that "2.prems"(3) [of j] by (auto simp: nth_Cons')
  qed
  then show ?case by auto
next
  case (3 k v es its i srcs)
  have Pi: "P i"
    using "3.prems"(3) [of i] by simp
  have "\<exists>j\<in>set srcs'. j < i + 1 + length its \<and> P j"
  proof (rule "3.IH")
    show "pick_min its (i + 1) (Some (k, v)) [i] = (Some kv, srcs')"
      using "3.prems"(1) by simp
    show "Some (k, v) \<noteq> None \<longrightarrow> (\<exists>j\<in>set [i]. j < i + 1 \<and> P j)"
      using Pi by simp
    show "P j" if "i + 1 \<le> j" "j < i + 1 + length its" "its ! (j - (i + 1)) \<noteq> []" for j
      using that "3.prems"(3) [of j] by (auto simp: nth_Cons')
  qed
  then show ?case by auto
next
  case (4 k v es its i minKey minVal srcs)
  have Pi: "P i"
    using "4.prems"(3) [of i] by simp
  have rest: "P j" if "i + 1 \<le> j" "j < i + 1 + length its" "its ! (j - (i + 1)) \<noteq> []" for j
    using that "4.prems"(3) [of j] by (auto simp: nth_Cons')
  from "4.prems"(2) obtain j0 where j0: "j0 \<in> set srcs" "j0 < i" "P j0"
    by auto
  consider "k < minKey" | "\<not> k < minKey" "k = minKey" | "\<not> k < minKey" "k \<noteq> minKey"
    by blast
  then have "\<exists>j\<in>set srcs'. j < i + 1 + length its \<and> P j"
  proof cases
    case 1
    show ?thesis
    proof (rule "4.IH"(1) [OF 1])
      show "pick_min its (i + 1) (Some (k, v)) [i] = (Some kv, srcs')"
        using "4.prems"(1) 1 by simp
      show "Some (k, v) \<noteq> None \<longrightarrow> (\<exists>j\<in>set [i]. j < i + 1 \<and> P j)"
        using Pi by simp
    qed (rule rest)
  next
    case 2
    show ?thesis
    proof (rule "4.IH"(2) [OF 2])
      show "pick_min its (i + 1) (Some (minKey, minVal)) (srcs @ [i]) = (Some kv, srcs')"
        using "4.prems"(1) 2 by simp
      show "Some (minKey, minVal) \<noteq> None \<longrightarrow> (\<exists>j\<in>set (srcs @ [i]). j < i + 1 \<and> P j)"
        using Pi by simp
    qed (rule rest)
  next
    case 3
    show ?thesis
    proof (rule "4.IH"(3) [OF 3])
      show "pick_min its (i + 1) (Some (minKey, minVal)) srcs = (Some kv, srcs')"
        using "4.prems"(1) 3 by simp
      show "Some (minKey, minVal) \<noteq> None \<longrightarrow> (\<exists>j\<in>set srcs. j < i + 1 \<and> P j)"
        using j0 by (auto intro: less_SucI)
    qed (rule rest)
  qed
  then show ?case by auto
qed

lemma advance_iters_le:
  "sum_list (map length (advance_iters its i srcs)) \<le> sum_list (map length its)"
  by (induction its i srcs rule: advance_iters.induct) (auto simp: le_SucI)

lemma advance_iters_less:
  "\<exists>j\<in>set srcs. i \<le> j \<and> j < i + length its \<and> its ! (j - i) \<noteq> [] \<Longrightarrow>
   sum_list (map length (advance_iters its i srcs)) < sum_list (map length its)"
proof (induction its i srcs rule: advance_iters.induct)
  case (1 i srcs)
  then show ?case by auto
next
  case (2 it its i srcs)
  from "2.prems" obtain j where j: "j \<in> set srcs" "i \<le> j" "j < i + length (it # its)"
    "(it # its) ! (j - i) \<noteq> []"
    by auto
  show ?case
  proof (cases "j = i")
    case True
    then have "it \<noteq> []" "i \<in> set srcs"
      using j by auto
    then have "length (tl it) < length it"
      by (cases it) auto
    then show ?thesis
      using advance_iters_le [of its "i + 1" srcs] \<open>i \<in> set srcs\<close> by simp
  next
    case False
    then have "\<exists>j\<in>set srcs. i + 1 \<le> j \<and> j < i + 1 + length its \<and> its ! (j - (i + 1)) \<noteq> []"
      using j by (auto simp: nth_Cons' intro!: bexI [of _ j])
    from "2.IH" [OF this] show ?thesis
      by (auto simp: le_SucI intro: le_less_trans [rotated])
  qed
qed

text \<open>The \<open>while (true)\<close> loop of \<open>_kWayMerge\<close>; it ends when no iterator has an entry left.\<close>

function kWayMerge_loop :: "entry list list \<Rightarrow> entry list \<Rightarrow> entry list" where
  "kWayMerge_loop its merged =
     (case pick_min its 0 None [] of
        (None, srcs) \<Rightarrow> merged
      | (Some (k, v), srcs) \<Rightarrow> kWayMerge_loop (advance_iters its 0 srcs) (merged @ [(k, v)]))"
  by pat_completeness auto
termination
proof (relation "measure (\<lambda>(its, merged). sum_list (map length its))")
  show "wf (measure (\<lambda>(its, merged). sum_list (map length its)))"
    by simp
next
  fix its :: "entry list list" and merged :: "entry list" and x1 srcs kv k v
  assume "(x1, srcs) = pick_min its 0 None []" "x1 = Some kv" "(k, v) = kv"
  then have pm: "pick_min its 0 None [] = (Some kv, srcs)"
    by simp
  have "\<exists>j\<in>set srcs. j < 0 + length its \<and> (0 \<le> j \<and> j < 0 + length its \<and> its ! (j - 0) \<noteq> [])"
    by (rule pick_min_source [OF pm]) auto
  then have "sum_list (map length (advance_iters its 0 srcs)) < sum_list (map length its)"
    by (intro advance_iters_less) auto
  then show "((advance_iters its 0 srcs, merged @ [(k, v)]), (its, merged))
             \<in> measure (\<lambda>(its, merged). sum_list (map length its))"
    by simp
qed

text \<open>\<open>readers.map(r => ({ entries: r.entries(), idx: 0 }))\<close>; a failing read raises.\<close>

fun read_all :: "SSTableReader list \<Rightarrow> error + entry list list" where
  "read_all [] = Inr []"
| "read_all (r # rs) =
     (case SSTableReader_entries r of
        Inl e \<Rightarrow> Inl e
      | Inr es \<Rightarrow> (case read_all rs of Inl e \<Rightarrow> Inl e | Inr ess \<Rightarrow> Inr (es # ess)))"

definition kWayMerge :: "SSTableReader list \<Rightarrow> error + entry list" where
  "kWayMerge readers =
     (case read_all readers of
        Inl e \<Rightarrow> Inl e
      | Inr its \<Rightarrow> Inr (kWayMerge_loop its []))"

subsection \<open>Compaction.run\<close>

text \<open>
  The loop \<open>for (let older = lvl + 1; older < MAX_LEVELS; older++)\<close> that sets
  \<open>hasOlderLevels\<close>, from \<open>older\<close> on.
\<close>

function older_loop :: "level_map \<Rightarrow> nat \<Rightarrow> bool" where
  "older_loop lv older =
     (if older < MAX_LEVELS
      then (if length (tables_at lv older) > 0 then True else older_loop lv (older + 1))
      else False)"
  by pat_completeness auto
termination
  by (relation "measure (\<lambda>(lv, older). MAX_LEVELS - older)") auto

definition hasOlderLevels :: "level_map \<Rightarrow> nat \<Rightarrow> bool" where
  "hasOlderLevels lv lvl = older_loop lv (lvl + 1)"

text \<open>\<open>merged\<close>: what is written to the next level.\<close>

definition merged_entries :: "level_map \<Rightarrow> nat \<Rightarrow> entry list \<Rightarrow> entry list" where
  "merged_entries lv lvl allEntries =
     (if hasOlderLevels lv lvl then allEntries
      else filter (\<lambda>e. snd e \<noteq> TOMBSTONE) allEntries)"

text \<open>The name of a table file in the data directory: \<open>L<level>_<ts>.sst\<close>.\<close>

definition sst_name :: "nat \<Rightarrow> int \<Rightarrow> string" where
  "sst_name lvl ts = ''L'' @ decimal (int lvl) @ ''_'' @ decimal ts @ ''.sst''"

text \<open>Removing the old files; \<open>try { unlinkSync(table.path) } catch { }\<close>.\<close>

fun unlink_all :: "table list \<Rightarrow> fs \<Rightarrow> fs" where
  "unlink_all [] files = files"
| "unlink_all (t # ts) files =
     unlink_all ts (case unlinkSync files (path t) of Inl e \<Rightarrow> files | Inr files' \<Rightarrow> files')"

text \<open>
  The body of the loop over the levels, for level \<open>lvl\<close>; \<open>ts\<close> is \<open>Date.now()\<close> there.
  The new table goes where \<open>nextTables.push\<close> puts it.
\<close>

definition compact_level :: "level_map \<Rightarrow> fs \<Rightarrow> int \<Rightarrow> nat \<Rightarrow> error + (level_map \<times> fs)" where
  "compact_level lv files ts lvl =
     (if length (tables_at lv lvl) < SIZE_RATIO then Inr (lv, files)
      else
        (case kWayMerge (map reader (tables_at lv lvl)) of
           Inl e \<Rightarrow> Inl e
         | Inr allEntries \<Rightarrow>
             (if length (merged_entries lv lvl allEntries) > 0
              then
                (case SSTableWriter_write files (merged_entries lv lvl allEntries)
                        (sst_name (lvl + 1) ts) of
                   Inl e \<Rightarrow> Inl e
                 | Inr files1 \<Rightarrow>
                     (case SSTableReader_open (unlink_all (tables_at lv lvl) files1)
                             (sst_name (lvl + 1) ts) of
                        Inl e \<Rightarrow> Inl e
                      | Inr r \<Rightarrow>
                          Inr ((lv(lvl \<mapsto> []))
                                 (lvl + 1 \<mapsto>
                                    tables_at (lv(lvl \<mapsto> [])) (lvl + 1)
                                    @ [\<lparr>path = sst_name (lvl + 1) ts, reader = r\<rparr>]),
                               unlink_all (tables_at lv lvl) files1)))
              else Inr (lv(lvl \<mapsto> []), unlink_all (tables_at lv lvl) files))))"

text \<open>
  \<open>Compaction.run\<close>: the loop \<open>for (let lvl = 0; lvl < MAX_LEVELS - 1; lvl++)\<close>;
  \<open>now lvl\<close> is what \<open>Date.now()\<close> returns while level \<open>lvl\<close> is compacted.
\<close>

function run_loop :: "level_map \<Rightarrow> fs \<Rightarrow> (nat \<Rightarrow> int) \<Rightarrow> nat \<Rightarrow> error + (level_map \<times> fs)" where
  "run_loop lv files now lvl =
     (if lvl < MAX_LEVELS - 1
      then (case compact_level lv files (now lvl) lvl of
              Inl e \<Rightarrow> Inl e
            | Inr (lv', files') \<Rightarrow> run_loop lv' files' now (lvl + 1))
      else Inr (lv, files))"
  by pat_completeness auto
termination
  by (relation "measure (\<lambda>(lv, files, now, lvl). MAX_LEVELS - 1 - lvl)") auto

definition Compaction_run :: "level_map \<Rightarrow> fs \<Rightarrow> (nat \<Rightarrow> int) \<Rightarrow> error + (level_map \<times> fs)" where
  "Compaction_run lv files now = run_loop lv files now 0"

section \<open>The engine (lsm-tree.js)\<close>

definition MEMTABLE_SIZE_THRESHOLD :: int where
  "MEMTABLE_SIZE_THRESHOLD = 64 * 1024"

definition walPath :: string where
  "walPath = ''wal.log''"

text \<open>
  The state of an engine: the MemTable, the levels and the files of its data directory
  (the log among them).  What one operation reads from outside is its \<open>env\<close>: the clock
  when the log line is written, the random numbers of the skip list, the clock when a
  flush names its file, and the clock in \<open>Compaction.run\<close>.
\<close>

record LSMTree =
  memTable :: SkipList
  levels :: level_map
  disk :: fs

record env =
  walTime :: int
  rnd :: "nat \<Rightarrow> bool"
  flushTime :: int
  compactTime :: "nat \<Rightarrow> int"

text \<open>\<open>get\<close>: the loops over the tables of a level and over the levels.\<close>

fun get_tables :: "table list \<Rightarrow> string \<Rightarrow> error + string option" where
  "get_tables [] k = Inr None"
| "get_tables (t # ts) k =
     (case SSTableReader_get (reader t) k of
        Inl e \<Rightarrow> Inl e
      | Inr None \<Rightarrow> get_tables ts k
      | Inr (Some v) \<Rightarrow> Inr (Some v))"

function get_levels :: "level_map \<Rightarrow> string \<Rightarrow> nat \<Rightarrow> error + string option" where
  "get_levels lv k lvl =
     (if lvl < MAX_LEVELS
      then (case get_tables (tables_at lv lvl) k of
              Inl e \<Rightarrow> Inl e
            | Inr None \<Rightarrow> get_levels lv k (lvl + 1)
            | Inr (Some v) \<Rightarrow> Inr (Some v))
      else Inr None)"
  by pat_completeness auto
termination
  by (relation "measure (\<lambda>(lv, k, lvl). MAX_LEVELS - lvl)") auto

text \<open>The result \<open>None\<close> is \<open>null\<close>: the key is absent or deleted.\<close>

definition LSMTree_get :: "LSMTree \<Rightarrow> string \<Rightarrow> error + string option" where
  "LSMTree_get s k =
     (case SkipList_get (memTable s) k of
        Some memVal \<Rightarrow> Inr (if memVal = TOMBSTONE then None else Some memVal)
      | None \<Rightarrow>
          (case get_levels (levels s) k 0 of
             Inl e \<Rightarrow> Inl e
           | Inr None \<Rightarrow> Inr None
           | Inr (Some v) \<Rightarrow> Inr (if v = TOMBSTONE then None else Some v)))"

text \<open>
  \<open>flush\<close>: the new table goes to the front of level 0 (\<open>l0.unshift\<close>), then the MemTable
  and the log are cleared and \<open>Compaction.run\<close> runs.
\<close>

definition LSMTree_flush :: "LSMTree \<Rightarrow> env \<Rightarrow> error + LSMTree" where
  "LSMTree_flush s e =
     (if length (SkipList_entries (memTable s)) = 0 then Inr s
      else
        (case SSTableWriter_write (disk s) (SkipList_entries (memTable s))
                (sst_name 0 (flushTime e)) of
           Inl er \<Rightarrow> Inl er
         | Inr d1 \<Rightarrow>
             (case levels s 0 of
                None \<Rightarrow> Inl TypeError
              | Some l0 \<Rightarrow>
                  (case SSTableReader_open d1 (sst_name 0 (flushTime e)) of
                     Inl er \<Rightarrow> Inl er
                   | Inr r \<Rightarrow>
                       (case Compaction_run
                               ((levels s)(0 \<mapsto> \<lparr>path = sst_name 0 (flushTime e), reader = r\<rparr> # l0))
                               (WAL_clear d1 walPath) (compactTime e) of
                          Inl er \<Rightarrow> Inl er
                        | Inr (lv, d2) \<Rightarrow>
                            Inr \<lparr>memTable = SkipList_clear (memTable s), levels = lv,
                                 disk = d2\<rparr>)))))"

definition maybeFlush :: "LSMTree \<Rightarrow> env \<Rightarrow> error + LSMTree" where
  "maybeFlush s e =
     (if byteSize (memTable s) \<ge> MEMTABLE_SIZE_THRESHOLD then LSMTree_flush s e else Inr s)"

definition LSMTree_put :: "LSMTree \<Rightarrow> env \<Rightarrow> string \<Rightarrow> string \<Rightarrow> error + LSMTree" where
  "LSMTree_put s e k v =
     maybeFlush
       (s\<lparr>disk := WAL_append (disk s) walPath (walTime e) ''PUT'' k v,
          memTable := SkipList_put (memTable s) (rnd e) k v\<rparr>) e"

definition LSMTree_delete :: "LSMTree \<Rightarrow> env \<Rightarrow> string \<Rightarrow> error + LSMTree" where
  "LSMTree_delete s e k =
     maybeFlush
       (s\<lparr>disk := WAL_append (disk s) walPath (walTime e) ''DELETE'' k TOMBSTONE,
          memTable := SkipList_delete (memTable s) (rnd e) k\<rparr>) e"

definition LSMTree_close :: "LSMTree \<Rightarrow> env \<Rightarrow> error + LSMTree" where
  "LSMTree_close s e = (if count (memTable s) > 0 then LSMTree_flush s e else Inr s)"

subsection \<open>Start-up: loading the tables and replaying the log\<close>

text \<open>
  The file names the engine loads match \<open>/^L(\d+)_(\d+)\.sst$/\<close>; \<open>parseInt\<close> reads the two
  numbers, each the double nearest to the number the digits spell.
\<close>

definition is_digit :: "char \<Rightarrow> bool" where
  "is_digit c = (CHR ''0'' \<le> c \<and> c \<le> CHR ''9'')"

fun parseInt_from :: "int \<Rightarrow> string \<Rightarrow> int" where
  "parseInt_from acc [] = acc"
| "parseInt_from acc (c # cs) = parseInt_from (10 * acc + (of_char c - 48)) cs"

definition parseInt :: "string \<Rightarrow> int" where
  "parseInt ds = round_half_even (ulp53 (parseInt_from 0 ds)) (parseInt_from 0 ds)"

definition parse_sst_name :: "string \<Rightarrow> (nat \<times> int) option" where
  "parse_sst_name name =
     (case name of
        [] \<Rightarrow> None
      | c # rest \<Rightarrow>
          (if c \<noteq> CHR ''L'' \<or> takeWhile is_digit rest = [] then None
           else
             (case dropWhile is_digit rest of
                [] \<Rightarrow> None
              | u # rest' \<Rightarrow>
                  (if u \<noteq> CHR ''_'' \<or> takeWhile is_digit rest' = []
                      \<or> dropWhile is_digit rest' \<noteq> ''.sst''
                   then None
                   else Some (nat (parseInt (takeWhile is_digit rest)),
                              parseInt (takeWhile is_digit rest'))))))"

definition endsWith :: "string \<Rightarrow> string \<Rightarrow> bool" where
  "endsWith s suffix = (length suffix \<le> length s \<and> drop (length s - length suffix) s = suffix)"

text \<open>The constructor's loop \<open>this.levels.set(i, [])\<close> for every level below \<open>MAX_LEVELS\<close>.\<close>

definition init_levels :: level_map where
  "init_levels = (\<lambda>lvl. if lvl < MAX_LEVELS then Some [] else None)"

text \<open>
  \<open>_loadExistingSSTables\<close>: the loop over the sorted file names (a file that does not
  match is passed over, a file that does not open is skipped with a warning), then
  every level is sorted by the timestamp of the path, newest first.
\<close>

fun load_files :: "fs \<Rightarrow> string list \<Rightarrow> level_map \<Rightarrow> level_map" where
  "load_files d [] lv = lv"
| "load_files d (file # rest) lv =
     (case parse_sst_name file of
        None \<Rightarrow> load_files d rest lv
      | Some (lvl, ts) \<Rightarrow>
          (case SSTableReader_open d file of
             Inl e \<Rightarrow> load_files d rest lv
           | Inr r \<Rightarrow>
               load_files d rest
                 (lv(lvl \<mapsto> tables_at lv lvl @ [\<lparr>path = file, reader = r\<rparr>]))))"

definition path_ts :: "table \<Rightarrow> int" where
  "path_ts t = (case parse_sst_name (path t) of None \<Rightarrow> 0 | Some (lvl, ts) \<Rightarrow> ts)"

definition newest_first :: "table list \<Rightarrow> table list" where
  "newest_first ts = sort_key (\<lambda>t. - path_ts t) ts"

definition loadExistingSSTables :: "fs \<Rightarrow> level_map \<Rightarrow> level_map" where
  "loadExistingSSTables d lv =
     (\<lambda>lvl. map_option newest_first
        (load_files d (sort (filter (\<lambda>f. endsWith f ''.sst'') (map fst d))) lv lvl))"

text \<open>
  \<open>_recoverWAL\<close>: every record of the log goes into the MemTable; \<open>rnds i\<close> are the random
  numbers of the \<open>i\<close>-th record.
\<close>

fun replay ::
  "SkipList \<Rightarrow> (string \<times> string \<times> string) list \<Rightarrow> (nat \<Rightarrow> nat \<Rightarrow> bool) \<Rightarrow> nat \<Rightarrow> SkipList" where
  "replay m [] rnds i = m"
| "replay m ((opn, k, v) # rest) rnds i =
     replay (if opn = ''PUT'' then SkipList_put m (rnds i) k v
             else if opn = ''DELETE'' then SkipList_delete m (rnds i) k
             else m)
       rest rnds (i + 1)"

text \<open>The constructor, on the files of the data directory.\<close>

definition LSMTree_new :: "fs \<Rightarrow> (nat \<Rightarrow> nat \<Rightarrow> bool) \<Rightarrow> LSMTree" where
  "LSMTree_new d rnds =
     \<lparr>memTable = replay SkipList_new (WAL_recover (WAL_new d walPath) walPath) rnds 0,
      levels = loadExistingSSTables (WAL_new d walPath) init_levels,
      disk = WAL_new d walPath\<rparr>"

subsection \<open>Sequences of operations\<close>

text \<open>
  A client's operation, to be run with the \<open>env\<close> it meets.  An operation that raises
  ends the run.
\<close>

datatype operation = Put string string | Delete string | Flush

fun apply_op :: "LSMTree \<Rightarrow> operation \<times> env \<Rightarrow> error + LSMTree" where
  "apply_op s (Put k v, e) = LSMTree_put s e k v"
| "apply_op s (Delete k, e) = LSMTree_delete s e k"
| "apply_op s (Flush, e) = LSMTree_flush s e"

fun run_ops :: "LSMTree \<Rightarrow> (operation \<times> env) list \<Rightarrow> error + LSMTree" where
  "run_ops s [] = Inr s"
| "run_ops s (oe # rest) =
     (case apply_op s oe of Inl e \<Rightarrow> Inl e | Inr s' \<Rightarrow> run_ops s' rest)"

text \<open>An \<open>env\<close> whose clock reads \<open>t\<close> throughout and whose random numbers are all above \<open>P\<close>.\<close>

definition at_time :: "int \<Rightarrow> env" where
  "at_time t = \<lparr>walTime = t, rnd = (\<lambda>n. False), flushTime = t, compactTime = (\<lambda>lvl. t)\<rparr>"

definition no_promotion :: "nat \<Rightarrow> nat \<Rightarrow> bool" where
  "no_promotion i n = False"

section \<open>Notions used in the verification\<close>

text \<open>
  The nodes of a skip list are in strictly ascending key order and every node has at
  least one forward pointer; \<open>found\<close> is the value at the first node whose key is not
  below the key, when that node has the key.
\<close>

definition sl_sorted :: "node list \<Rightarrow> bool" where
  "sl_sorted ns = (sorted_wrt (<) (map fst ns) \<and> (\<forall>n\<in>set ns. 1 \<le> snd (snd n)))"

definition found :: "node list \<Rightarrow> string \<Rightarrow> string option" where
  "found ns k =
     (case dropWhile (\<lambda>n. fst n < k) ns of
        [] \<Rightarrow> None
      | n # rest \<Rightarrow> if fst n = k then Some (fst (snd n)) else None)"










text \<open>
  A run of the engine on an empty data directory: the key "k" is written and flushed,
  three more flushes fill level 0 and the first compaction moves it to level 1; then
  "k" is written again and flushed, and three more flushes bring the second compaction.
  Every operation reads a later clock than the one before.
\<close>

definition stale_read_scenario :: "(operation \<times> env) list" where
  "stale_read_scenario =
     [(Put ''k'' ''1'', at_time 1700000000001), (Flush, at_time 1700000000002),
      (Put ''a'' ''x'', at_time 1700000000003), (Flush, at_time 1700000000004),
      (Put ''a'' ''x'', at_time 1700000000005), (Flush, at_time 1700000000006),
      (Put ''a'' ''x'', at_time 1700000000007), (Flush, at_time 1700000000008),
      (Put ''k'' ''2'', at_time 1700000000009), (Flush, at_time 1700000000010),
      (Put ''a'' ''x'', at_time 1700000000011), (Flush, at_time 1700000000012),
      (Put ''a'' ''x'', at_time 1700000000013), (Flush, at_time 1700000000014),
      (Put ''a'' ''x'', at_time 1700000000015), (Flush, at_time 1700000000016)]"






section \<open>Verification\<close>

text \<open>
  The loops are unfolded by hand in the proofs below, one step at a time.
\<close>

declare ulp53.simps [simp del] add_loop.simps [simp del] mightContain_loop.simps [simp del]
  digits.simps [simp del] randomLevel.simps [simp del] advance.simps [simp del]
  parseIndex_loop.simps [simp del] scan_loop.simps [simp del] entries_loop.simps [simp del]
  kWayMerge_loop.simps [simp del] older_loop.simps [simp del] run_loop.simps [simp del]
  get_levels.simps [simp del]

subsection \<open>Bloom filter: bits are only ever set\<close>


lemma length_set_bit_at [simp]: "length (set_bit_at bs b) = length bs"
  by (simp add: set_bit_at_def Let_def)

lemma or_and_zero:
  fixes x y m :: byte
  assumes "(x OR y) AND m = 0"
  shows "x AND m = 0"
proof -
  have "x AND m = x AND ((x OR y) AND m)"
    by (simp add: bit_eq_iff bit_and_iff bit_or_iff) blast
  then show ?thesis using assms by simp
qed

lemma or_and_absorb:
  fixes x y :: byte
  shows "(x OR y) AND x = x"
  by (auto simp: bit_eq_iff bit_and_iff bit_or_iff)

lemma and_keeps_trans:
  fixes x y z :: byte
  assumes "y AND x = x" "z AND y = y"
  shows "z AND x = x"
proof -
  have "z AND x = z AND (y AND x)" using assms(1) by simp
  also have "\<dots> = (z AND y) AND x" by (simp add: and.assoc)
  also have "\<dots> = x" using assms by simp
  finally show ?thesis .
qed

lemma set_bit_at_keeps:
  "i < length bs \<Longrightarrow> (set_bit_at bs b ! i) AND (bs ! i) = bs ! i"
  by (simp add: set_bit_at_def Let_def nth_list_update or_and_absorb)

lemma ushr3_nonneg [simp]: "0 \<le> ushr3 b"
  by (simp add: ushr3_def ToUint32_def split: option.splits)

lemma set_bit_at_mono:
  assumes "\<not> bit_clear_at bs b"
  shows "\<not> bit_clear_at (set_bit_at bs b') b"
proof -
  from assms have inr: "ushr3 b < int (length bs)"
    and set: "(bs ! nat (ushr3 b)) AND push_bit (nat (and7 b)) 1 \<noteq> 0"
    by (auto simp: bit_clear_at_def Let_def split: if_splits)
  have idx: "nat (ushr3 b) < length bs"
    using inr ushr3_nonneg [of b] by linarith
  have "(set_bit_at bs b' ! nat (ushr3 b)) AND push_bit (nat (and7 b)) 1 \<noteq> 0"
  proof (cases "ushr3 b' < int (length bs) \<and> nat (ushr3 b') = nat (ushr3 b)")
    case True
    then show ?thesis
      using set idx or_and_zero [of "bs ! nat (ushr3 b)" "push_bit (nat (and7 b')) 1" "push_bit (nat (and7 b)) 1"]
      by (auto simp: set_bit_at_def Let_def)
  next
    case False
    then show ?thesis
      using set idx by (auto simp: set_bit_at_def Let_def)
  qed
  then show ?thesis
    using inr by (simp add: bit_clear_at_def Let_def)
qed

lemma hash_of_cong: "bsize bf' = bsize bf \<Longrightarrow> hash_of bf' k i = hash_of bf k i"
  by (simp add: hash_of_def)

lemma add_loop_fields [simp]:
  "bsize (add_loop bf k i) = bsize bf"
  "hashCount (add_loop bf k i) = hashCount bf"
  "length (bits (add_loop bf k i)) = length (bits bf)"
  by (induction bf k i rule: add_loop.induct; subst add_loop.simps; simp)+

lemma add_loop_keeps:
  "j < length (bits bf) \<Longrightarrow> (bits (add_loop bf k i) ! j) AND (bits bf ! j) = bits bf ! j"
proof (induction bf k i rule: add_loop.induct)
  case (1 bf key i)
  show ?case
  proof (cases "i < hashCount bf")
    case True
    let ?bf' = "bf\<lparr>bits := set_bit_at (bits bf) (hash_of bf key i)\<rparr>"
    have "bits (add_loop ?bf' key (i + 1)) ! j AND bits ?bf' ! j = bits ?bf' ! j"
      using 1 True by simp
    moreover have "bits ?bf' ! j AND bits bf ! j = bits bf ! j"
      using "1.prems" by (simp add: set_bit_at_keeps)
    ultimately have "bits (add_loop ?bf' key (i + 1)) ! j AND bits bf ! j = bits bf ! j"
      by (rule and_keeps_trans [rotated])
    then show ?thesis
      using True by (subst add_loop.simps) simp
  next
    case False
    then show ?thesis by (subst add_loop.simps) simp
  qed
qed

lemma add_loop_mono:
  "\<not> bit_clear_at (bits bf) b \<Longrightarrow> \<not> bit_clear_at (bits (add_loop bf k i)) b"
proof (induction bf k i rule: add_loop.induct)
  case (1 bf key i)
  show ?case
  proof (cases "i < hashCount bf")
    case True
    then show ?thesis
      using 1 by (subst add_loop.simps) (simp add: set_bit_at_mono)
  next
    case False
    then show ?thesis using 1 by (subst add_loop.simps) simp
  qed
qed

lemma mightContain_loop_iff:
  "mightContain_loop bf k i \<longleftrightarrow>
     (\<forall>j. i \<le> j \<and> j < hashCount bf \<longrightarrow> \<not> bit_clear_at (bits bf) (hash_of bf k j))"
proof (induction bf k i rule: mightContain_loop.induct)
  case (1 bf key i)
  show ?case
  proof (cases "i < hashCount bf")
    case True
    show ?thesis
    proof (cases "bit_clear_at (bits bf) (hash_of bf key i)")
      case c: True
      then show ?thesis using True
        by (subst mightContain_loop.simps) auto
    next
      case c: False
      have "(\<forall>j. i \<le> j \<and> j < hashCount bf \<longrightarrow> \<not> bit_clear_at (bits bf) (hash_of bf key j))
            \<longleftrightarrow> (\<forall>j. i + 1 \<le> j \<and> j < hashCount bf \<longrightarrow> \<not> bit_clear_at (bits bf) (hash_of bf key j))"
        using c by (metis Suc_eq_plus1 Suc_leI le_neq_implies_less add_leD1)
      then show ?thesis using True c 1
        by (subst mightContain_loop.simps) simp
    qed
  next
    case False
    then show ?thesis by (subst mightContain_loop.simps) auto
  qed
qed

text \<open>
  Claim C10.  \<open>add\<close> only sets bits: the bit array keeps its length, every byte keeps the
  bits it had, and a key that \<open>mightContain\<close> reports stays reported after any further
  \<open>add\<close>.  This holds for every filter state, whatever its size, hash count and bits.
\<close>

theorem add_mightContain_monotone:
  "length (bits (add bf k')) = length (bits bf)
   \<and> (\<forall>i<length (bits bf). (bits (add bf k') ! i) AND (bits bf ! i) = bits bf ! i)
   \<and> (mightContain bf k \<longrightarrow> mightContain (add bf k') k)"
proof (intro conjI allI impI)
  show "length (bits (add bf k')) = length (bits bf)"
    by (simp add: add_def)
  show "bits (add bf k') ! i AND bits bf ! i = bits bf ! i" if "i < length (bits bf)" for i
    using that by (simp add: add_def add_loop_keeps)
  show "mightContain (add bf k') k" if "mightContain bf k"
  proof -
    have "hash_of (add bf k') k j = hash_of bf k j" for j
      by (rule hash_of_cong) (simp add: add_def)
    with that show ?thesis
      by (simp add: mightContain_def mightContain_loop_iff add_def add_loop_mono)
  qed
qed

text \<open>The default filter after \<open>add("name")\<close> reports the key, and still does after \<open>add("age")\<close>.\<close>

theorem add_mightContain_monotone_witness:
  "mightContain (add (BloomFilter_new BLOOM_FILTER_SIZE BLOOM_HASH_COUNT) ''name'') ''name''
   \<and> mightContain (add (add (BloomFilter_new BLOOM_FILTER_SIZE BLOOM_HASH_COUNT) ''name'') ''age'') ''name''"
proof -
  have h: "mightContain (add (BloomFilter_new BLOOM_FILTER_SIZE BLOOM_HASH_COUNT) ''name'') ''name''"
    by code_simp
  from h add_mightContain_monotone
      [of "add (BloomFilter_new BLOOM_FILTER_SIZE BLOOM_HASH_COUNT) ''name''" "''age''" "''name''"]
  show ?thesis by (intro conjI) (rule h, blast)
qed


subsection \<open>A key that was added is found\<close>

lemma hash_loop_Cons_range: "0 \<le> hash_loop h (c # cs) \<and> hash_loop h (c # cs) < 2 ^ 32"
proof (induction cs arbitrary: h c)
  case Nil
  have "take_bit 32 x < (2 ^ 32 :: int)" for x :: int
    by (rule take_bit_int_less_exp)
  then show ?case by (simp add: ToUint32_def)
next
  case (Cons d ds)
  show ?case
    using Cons.IH [of "ToUint32 (js_mul (ToInt32 h XOR ToInt32 (of_char c)) 16777619)" d]
    by simp
qed

lemma hash_of_range:
  assumes "k \<noteq> []" "0 < bsize bf"
  obtains b where "hash_of bf k i = Some b" "0 \<le> b" "b < int (bsize bf)"
proof -
  obtain c cs where k: "k = c # cs"
    using assms(1) by (cases k) auto
  let ?h = "hash_loop (ToInt32 2166136261 XOR ToInt32 (int i)) k"
  have h: "0 \<le> ?h"
    using hash_loop_Cons_range [of _ c cs] k by simp
  then have "hash_of bf k i = Some (?h mod int (bsize bf))"
    using assms(2) by (simp add: hash_of_def js_rem_def sgn_if)
  moreover have "0 \<le> ?h mod int (bsize bf)" "?h mod int (bsize bf) < int (bsize bf)"
    using assms(2) by simp_all
  ultimately show ?thesis
    using that by blast
qed

lemma ushr3_and7_in_range:
  assumes "0 \<le> b" "b < int n"
  shows "ushr3 (Some b) < int ((n + 7) div 8)" "0 \<le> and7 (Some b)" "and7 (Some b) < 8"
proof -
  have b32: "0 \<le> b \<and> ToUint32 b \<le> b"
    using assms(1) by (simp add: ToUint32_def take_bit_int_less_eq_self_iff)
  have "ushr3 (Some b) = ToUint32 b div 8"
    by (simp add: ushr3_def drop_bit_eq_div)
  also have "\<dots> \<le> b div 8"
    using b32 by (intro zdiv_mono1) auto
  also have "\<dots> < int ((n + 7) div 8)"
    using assms by (simp add: zdiv_int)
  finally show "ushr3 (Some b) < int ((n + 7) div 8)" .
  have m: "mask 3 = (7 :: int)"
    by (simp add: mask_eq_exp_minus_1)
  have "x AND 7 = x mod 8" for x :: int
  proof -
    have "x AND 7 = x AND mask 3"
      by (simp only: m)
    also have "\<dots> = take_bit 3 x"
      by (simp only: take_bit_eq_mask)
    also have "\<dots> = x mod 8"
      by (simp add: take_bit_eq_mod)
    finally show ?thesis .
  qed
  then have "and7 (Some b) = ToInt32 b mod 8"
    by (simp add: and7_def)
  then show "0 \<le> and7 (Some b)" "and7 (Some b) < 8"
    by simp_all
qed


lemma bit_set_after_set:
  assumes "ushr3 b < int (length bs)" "and7 b < 8" "0 \<le> and7 b"
  shows "\<not> bit_clear_at (set_bit_at bs b) b"
proof -
  have idx: "nat (ushr3 b) < length bs"
    using assms(1) ushr3_nonneg [of b] by linarith
  have "nat (and7 b) < 8"
    using assms(2,3) by linarith
  then have "(x OR push_bit (nat (and7 b)) 1) AND push_bit (nat (and7 b)) 1 \<noteq> 0" for x :: byte
    by (auto simp: bit_eq_iff bit_and_iff bit_or_iff bit_push_bit_iff bit_1_iff bit_exp_iff
        intro!: exI [of _ "nat (and7 b)"])
  then show ?thesis
    using assms(1) idx by (simp add: bit_clear_at_def set_bit_at_def Let_def)
qed

lemma add_loop_sets:
  assumes "k \<noteq> []" "0 < bsize bf" "length (bits bf) = (bsize bf + 7) div 8"
    "i \<le> j" "j < hashCount bf"
  shows "\<not> bit_clear_at (bits (add_loop bf k i)) (hash_of bf k j)"
  using assms
proof (induction bf k i rule: add_loop.induct)
  case (1 bf key i)
  let ?bf' = "bf\<lparr>bits := set_bit_at (bits bf) (hash_of bf key i)\<rparr>"
  have lt: "i < hashCount bf"
    using "1.prems" by simp
  have unf: "add_loop bf key i = add_loop ?bf' key (i + 1)"
    using lt by (subst add_loop.simps) simp
  have hc: "hash_of ?bf' key j = hash_of bf key j"
    by (simp add: hash_of_def)
  show ?case
  proof (cases "i = j")
    case True
    obtain b where b: "hash_of bf key j = Some b" "0 \<le> b" "b < int (bsize bf)"
      using hash_of_range [OF "1.prems"(1,2)] by blast
    have "\<not> bit_clear_at (set_bit_at (bits bf) (hash_of bf key j)) (hash_of bf key j)"
      using ushr3_and7_in_range [OF b(2,3)] "1.prems"(3) b(1)
      by (intro bit_set_after_set) simp_all
    then have "\<not> bit_clear_at (bits ?bf') (hash_of bf key j)"
      using True by simp
    then have "\<not> bit_clear_at (bits (add_loop ?bf' key (i + 1))) (hash_of bf key j)"
      by (rule add_loop_mono)
    then show ?thesis
      using unf by simp
  next
    case False
    have "\<not> bit_clear_at (bits (add_loop ?bf' key (i + 1))) (hash_of ?bf' key j)"
      using lt "1.prems" False by (intro "1.IH") simp_all
    then show ?thesis
      using unf hc by simp
  qed
qed

lemma add_then_mightContain:
  assumes "k \<noteq> []" "0 < bsize bf" "length (bits bf) = (bsize bf + 7) div 8"
  shows "mightContain (add bf k) k"
proof -
  have "hash_of (add bf k) k j = hash_of bf k j" for j
    by (rule hash_of_cong) (simp add: add_def)
  then show ?thesis
    using assms by (simp add: mightContain_def mightContain_loop_iff add_def add_loop_sets)
qed

subsection \<open>Fixed-width fields: what is written is read back\<close>

lemma uint_byte_of_int: "uint (word_of_int x :: byte) = x mod 256"
  by (simp add: uint_word_of_int)

lemma le_bytes_16:
  assumes "0 \<le> v" "v < 2 ^ 16"
  shows "v mod 256 + 256 * (v div 256 mod 256) = (v :: int)"
  using assms by simp

lemma le_bytes_32:
  assumes "0 \<le> v" "v < 2 ^ 32"
  shows "v mod 256 + 256 * (v div 256 mod 256) + 65536 * (v div 65536 mod 256)
         + 16777216 * (v div 16777216 mod 256) = (v :: int)"
proof -
  have "v div 16777216 < 256"
    using assms by (simp add: div_less_iff_less_mult)
  moreover have "0 \<le> v div 16777216"
    using assms(1) by (simp add: pos_imp_zdiv_nonneg_iff)
  ultimately have top: "v div 16777216 mod 256 = v div 16777216"
    by simp
  have "v div 65536 div 256 = v div 16777216" "v div 256 div 256 = v div 65536"
    by (simp_all add: zdiv_zmult2_eq [symmetric])
  then have d16: "v div 65536 = 256 * (v div 16777216) + v div 65536 mod 256"
    and d8: "v div 256 = 256 * (v div 65536) + v div 256 mod 256"
    using div_mult_mod_eq [of "v div 65536" 256] div_mult_mod_eq [of "v div 256" 256]
    by linarith+
  have d0: "v = 256 * (v div 256) + v mod 256"
    using div_mult_mod_eq [of v 256] by linarith
  show ?thesis
    using top d16 d8 d0 by linarith
qed

lemma read_write_u8:
  assumes "writeUInt8 v = Inr bs"
  shows "readUInt8 (pre @ bs @ post) (length pre) = Inr v"
proof -
  from assms have v: "0 \<le> v" "v < 2 ^ 8" and bs: "bs = [word_of_int v]"
    by (auto simp: writeUInt8_def split: if_splits)
  have "v mod 256 = v"
    using v by simp
  then show ?thesis
    by (simp add: bs readUInt8_def uint_byte_of_int nth_append)
qed

lemma read_write_u16:
  assumes "writeUInt16LE v = Inr bs"
  shows "readUInt16LE (pre @ bs @ post) (length pre) = Inr v"
proof -
  from assms have v: "0 \<le> v" "v < 2 ^ 16"
    and bs: "bs = [word_of_int v, word_of_int (v div 2 ^ 8)]"
    by (auto simp: writeUInt16LE_def split: if_splits)
  have "readUInt16LE (pre @ bs @ post) (length pre)
        = Inr (v mod 256 + 256 * (v div 256 mod 256))"
    by (simp add: bs readUInt16LE_def uint_byte_of_int nth_append)
  then show ?thesis
    by (simp only: le_bytes_16 [OF v])
qed

lemma read_write_u32:
  assumes "writeUInt32LE v = Inr bs"
  shows "readUInt32LE (pre @ bs @ post) (length pre) = Inr v"
proof -
  from assms have v: "0 \<le> v" "v < 2 ^ 32"
    and bs: "bs = [word_of_int v, word_of_int (v div 2 ^ 8), word_of_int (v div 2 ^ 16),
                   word_of_int (v div 2 ^ 24)]"
    by (auto simp: writeUInt32LE_def split: if_splits)
  have "readUInt32LE (pre @ bs @ post) (length pre)
        = Inr (v mod 256 + 256 * (v div 256 mod 256) + 65536 * (v div 65536 mod 256)
               + 16777216 * (v div 16777216 mod 256))"
    by (simp add: bs readUInt32LE_def uint_byte_of_int nth_append)
  then show ?thesis
    by (simp only: le_bytes_32 [OF v])
qed

lemma write_lengths:
  "writeUInt8 v = Inr bs \<Longrightarrow> length bs = 1"
  "writeUInt16LE v = Inr bs \<Longrightarrow> length bs = 2"
  "writeUInt32LE v = Inr bs \<Longrightarrow> length bs = 4"
  by (simp_all add: writeUInt8_def writeUInt16LE_def writeUInt32LE_def split: if_splits) auto

subsection \<open>Bloom filter: added keys and the serialised form\<close>

lemma add_keeps_mightContain: "mightContain bf k \<Longrightarrow> mightContain (add bf k') k"
proof -
  assume mc: "mightContain bf k"
  have "hash_of (add bf k') k j = hash_of bf k j" for j
    by (rule hash_of_cong) (simp add: add_def)
  with mc show ?thesis
    by (simp add: mightContain_def mightContain_loop_iff add_def add_loop_mono)
qed

lemma add_fields [simp]:
  "bsize (add bf k) = bsize bf" "hashCount (add bf k) = hashCount bf"
  "length (bits (add bf k)) = length (bits bf)"
  by (simp_all add: add_def)

lemma add_all_fields [simp]:
  "bsize (add_all bf ks) = bsize bf" "hashCount (add_all bf ks) = hashCount bf"
  "length (bits (add_all bf ks)) = length (bits bf)"
  by (induction ks arbitrary: bf; simp)+

lemma add_all_keeps_mightContain:
  "mightContain bf k \<Longrightarrow> mightContain (add_all bf ks) k"
  by (induction ks arbitrary: bf) (simp_all add: add_keeps_mightContain)

lemma add_all_mightContain:
  assumes "k \<in> set ks" "k \<noteq> []" "0 < bsize bf" "length (bits bf) = (bsize bf + 7) div 8"
  shows "mightContain (add_all bf ks) k"
  using assms
proof (induction ks arbitrary: bf)
  case Nil
  then show ?case by simp
next
  case (Cons a ks)
  show ?case
  proof (cases "a = k")
    case True
    have "mightContain (add bf k) k"
      using Cons.prems by (intro add_then_mightContain) simp_all
    then show ?thesis
      using True by (simp add: add_all_keeps_mightContain)
  next
    case False
    then have "k \<in> set ks"
      using Cons.prems(1) by simp
    then show ?thesis
      using Cons.prems by (simp add: Cons.IH)
  qed
qed

lemma deserialize_serialize:
  assumes "serialize bf = Inr b" "length (bits bf) = (bsize bf + 7) div 8"
  shows "deserialize b = Inr bf"
proof -
  from assms(1) obtain sz hc where sz: "writeUInt32LE (int (bsize bf)) = Inr sz"
    and hc: "writeUInt8 (int (hashCount bf)) = Inr hc" and b: "b = sz @ hc @ bits bf"
    by (auto simp: serialize_def split: sum.splits)
  have len: "length sz = 4" "length hc = 1"
    using sz hc by (simp_all add: write_lengths)
  have r1: "readUInt32LE b 0 = Inr (int (bsize bf))"
    using read_write_u32 [OF sz, of "[]" "hc @ bits bf"] by (simp add: b)
  have r2: "readUInt8 b 4 = Inr (int (hashCount bf))"
    using read_write_u8 [OF hc, of sz "bits bf"] len by (simp add: b)
  have d: "drop 5 b = bits bf"
    using len by (simp add: b)
  show ?thesis
    using assms(2) by (simp add: deserialize_def r1 r2 d Let_def BloomFilter_new_def)
qed

lemma serialize_ok:
  assumes "int (bsize bf) < 2 ^ 32" "int (hashCount bf) < 2 ^ 8"
  shows "\<exists>b. serialize bf = Inr b"
  using assms by (simp add: serialize_def writeUInt32LE_def writeUInt8_def)

text \<open>
  Non-empty keys are found.  Take a filter of a positive size that fits the four bytes of
  the serialised form, with a hash count that fits its one byte, and add the keys of a
  list to it.  Then every key of the list that is not the empty string is reported by
  \<open>mightContain\<close>, \<open>serialize\<close> succeeds, \<open>deserialize\<close> gives the same filter back, and
  that filter reports the key as well.
\<close>

lemma added_key_found_after_round_trip:
  assumes "0 < sz" "int sz < 2 ^ 32" "int hc < 2 ^ 8" "k \<in> set ks" "k \<noteq> []"
  shows "mightContain (add_all (BloomFilter_new sz hc) ks) k
         \<and> (\<exists>b. serialize (add_all (BloomFilter_new sz hc) ks) = Inr b
                \<and> deserialize b = Inr (add_all (BloomFilter_new sz hc) ks)
                \<and> (\<exists>bf'. deserialize b = Inr bf' \<and> mightContain bf' k))"
proof -
  let ?bf = "add_all (BloomFilter_new sz hc) ks"
  have new: "bsize (BloomFilter_new sz hc) = sz" "hashCount (BloomFilter_new sz hc) = hc"
    "length (bits (BloomFilter_new sz hc)) = (sz + 7) div 8"
    by (simp_all add: BloomFilter_new_def)
  have mc: "mightContain ?bf k"
    using assms new by (intro add_all_mightContain) simp_all
  obtain b where b: "serialize ?bf = Inr b"
    using serialize_ok [of ?bf] assms(2,3) new by auto
  have "deserialize b = Inr ?bf"
    using b new by (intro deserialize_serialize) simp_all
  with mc b show ?thesis
    by auto
qed

text \<open>The default filter with the keys "name" and "age" added.\<close>

lemma added_key_found_after_round_trip_default:
  "mightContain (add_all (BloomFilter_new 1024 7) [''name'', ''age'']) ''age''
   \<and> (\<exists>b. serialize (add_all (BloomFilter_new 1024 7) [''name'', ''age'']) = Inr b
          \<and> deserialize b = Inr (add_all (BloomFilter_new 1024 7) [''name'', ''age''])
          \<and> (\<exists>bf'. deserialize b = Inr bf' \<and> mightContain bf' ''age''))"
  by (rule added_key_found_after_round_trip) simp_all

text \<open>
  Claim C8 (the code does not keep it).  On the default filter, \<open>add("")\<close> sets no bit
  and \<open>mightContain("")\<close> is \<open>false\<close>, before and after the round trip through
  \<open>serialize\<close> and \<open>deserialize\<close>.  \<open>_hash\<close> starts from \<open>2166136261 ^ seed\<close>, which is a
  signed 32-bit number; only the loop over the characters brings the hash back to an
  unsigned one, and the empty key has no character.  Its seven hashes are negative, so
  are the bit positions \<open>hash % size\<close>, and the byte index \<open>bit >>> 3\<close> lies far outside
  the bit array.
\<close>

theorem empty_key_false_negative:
  "map (hash_of (BloomFilter_new BLOOM_FILTER_SIZE BLOOM_HASH_COUNT) '''') [0, 1, 2, 3, 4, 5, 6]
   = [Some (- 571), Some (- 572), Some (- 569), Some (- 570), Some (- 575), Some (- 576),
      Some (- 573)]
   \<and> bits (add (BloomFilter_new BLOOM_FILTER_SIZE BLOOM_HASH_COUNT) '''')
       = bits (BloomFilter_new BLOOM_FILTER_SIZE BLOOM_HASH_COUNT)
   \<and> mightContain (add (BloomFilter_new BLOOM_FILTER_SIZE BLOOM_HASH_COUNT) '''') '''' = False
   \<and> (case serialize (add (BloomFilter_new BLOOM_FILTER_SIZE BLOOM_HASH_COUNT) '''') of
         Inl e \<Rightarrow> None
       | Inr b \<Rightarrow>
           (case deserialize b of
              Inl e \<Rightarrow> None
            | Inr bf' \<Rightarrow> Some (mightContain bf' '''')))
       = Some False"
  by code_simp

subsection \<open>Write-ahead log: the last value loses its trailing white space\<close>

text \<open>
  Claim C4 (the code does not keep it).  One \<open>append('PUT', 'k', 'v ')\<close> on a fresh log,
  at the clock reading 1700000000000: the key has no delimiter and no line terminator,
  the value has no line terminator, yet \<open>recover()\<close> returns the value \<open>'v'\<close> without
  its trailing space, because \<open>recover\<close> trims the whole content of the file before it
  splits it into lines.  A value that ends in another character, delimiters included,
  comes back as it was written.
\<close>

theorem recover_trims_last_value:
  "WAL_recover (WAL_append (WAL_new [] walPath) walPath 1700000000000 ''PUT'' ''k'' ''v '')
     walPath
   = [(''PUT'', ''k'', ''v'')]
   \<and> WAL_recover
       (WAL_append
          (WAL_append (WAL_new [] walPath) walPath 1700000000000 ''PUT'' ''data'' ''a|b|c '')
          walPath 1700000000001 ''DELETE'' ''name'' TOMBSTONE)
       walPath
     = [(''PUT'', ''data'', ''a|b|c ''), (''DELETE'', ''name'', ''__TOMBSTONE__'')]"
  by code_simp

subsection \<open>Skip list: the search finds the first node that is not below the key\<close>

lemma sl_sorted_Cons:
  "sl_sorted (n # ns) \<longleftrightarrow> (\<forall>m\<in>set ns. fst n < fst m) \<and> 1 \<le> snd (snd n) \<and> sl_sorted ns"
  by (auto simp: sl_sorted_def)

lemma sl_sorted_append:
  "sl_sorted (xs @ ys) \<longleftrightarrow>
     sl_sorted xs \<and> sl_sorted ys \<and> (\<forall>x\<in>set xs. \<forall>y\<in>set ys. fst x < fst y)"
  by (auto simp: sl_sorted_def sorted_wrt_append)

lemma advance_drops_smaller:
  assumes "sl_sorted rest"
  shows "\<exists>pre. rest = pre @ advance i k rest \<and> (\<forall>n\<in>set pre. fst n < k)"
  using assms
proof (induction i k rest rule: advance.induct)
  case (1 i k rest)
  show ?case
  proof (cases "dropWhile (\<lambda>n. snd (snd n) \<le> i) rest")
    case Nil
    have "advance i k rest = rest"
      by (subst advance.simps) (simp add: Nil)
    then show ?thesis
      by simp
  next
    case (Cons n rest')
    define skipped where "skipped = takeWhile (\<lambda>n. snd (snd n) \<le> i) rest"
    have split: "rest = skipped @ n # rest'"
      using Cons takeWhile_dropWhile_id [of "\<lambda>n. snd (snd n) \<le> i" rest]
      by (simp add: skipped_def)
    show ?thesis
    proof (cases "fst n < k")
      case True
      have sorted': "sl_sorted rest'"
        using "1.prems" split by (simp add: sl_sorted_append sl_sorted_Cons)
      obtain pre where pre: "rest' = pre @ advance i k rest'" "\<forall>m\<in>set pre. fst m < k"
        using "1.IH" [OF Cons True sorted'] by blast
      have "\<forall>m\<in>set skipped. fst m < fst n"
        using "1.prems" split by (auto simp: sl_sorted_append)
      then have "\<forall>m\<in>set (skipped @ n # pre). fst m < k"
        using True pre(2) by (auto intro: less_trans)
      moreover have "rest = (skipped @ n # pre) @ advance i k rest'"
        using split pre(1) by simp
      moreover have "advance i k rest = advance i k rest'"
        by (subst advance.simps) (simp add: Cons True)
      ultimately show ?thesis
        by metis
    next
      case False
      have "advance i k rest = rest"
        by (subst advance.simps) (simp add: Cons False)
      then show ?thesis
        by simp
    qed
  qed
qed

lemma dropWhile_prefix_smaller:
  "\<forall>n\<in>set pre. fst n < k \<Longrightarrow>
   dropWhile (\<lambda>n. fst n < k) (pre @ rest) = dropWhile (\<lambda>n. fst n < (k :: string)) rest"
  by (induction pre) auto

lemma advance_0:
  "sl_sorted rest \<Longrightarrow> advance 0 k rest = dropWhile (\<lambda>n. fst n < k) rest"
proof (induction rest)
  case Nil
  then show ?case by (subst advance.simps) simp
next
  case (Cons n rest)
  have "dropWhile (\<lambda>n. snd (snd n) \<le> 0) (n # rest) = n # rest"
    using Cons.prems by (simp add: sl_sorted_Cons)
  then have "advance 0 k (n # rest) = (if fst n < k then advance 0 k rest else n # rest)"
    by (subst advance.simps) (simp del: dropWhile.simps)
  then show ?case
    using Cons by (simp add: sl_sorted_Cons)
qed

lemma sl_sorted_suffix: "sl_sorted (pre @ rest) \<Longrightarrow> sl_sorted rest"
  by (simp add: sl_sorted_append)

lemma descend_eq_dropWhile:
  "sl_sorted rest \<Longrightarrow> descend i k rest = dropWhile (\<lambda>n. fst n < k) rest"
proof (induction i arbitrary: rest)
  case 0
  then show ?case by (simp add: advance_0)
next
  case (Suc i)
  obtain pre where pre: "rest = pre @ advance (Suc i) k rest" "\<forall>n\<in>set pre. fst n < k"
    using advance_drops_smaller [OF Suc.prems] by blast
  have "sl_sorted (advance (Suc i) k rest)"
    using Suc.prems pre(1) sl_sorted_suffix by metis
  then have "descend (Suc i) k rest = dropWhile (\<lambda>n. fst n < k) (advance (Suc i) k rest)"
    by (simp add: Suc.IH)
  also have "\<dots> = dropWhile (\<lambda>n. fst n < k) (pre @ advance (Suc i) k rest)"
    using pre(2) by (simp add: dropWhile_prefix_smaller)
  finally show ?case
    using pre(1) by simp
qed


subsection \<open>Skip list: \<open>get\<close> and \<open>put\<close> on the sorted nodes\<close>

lemma SkipList_get_found:
  "sl_sorted (nodes m) \<Longrightarrow> SkipList_get m k = found (nodes m) k"
  by (simp add: SkipList_get_def found_def descend_eq_dropWhile)

lemma found_eq_map_of:
  "sl_sorted ns \<Longrightarrow> found ns k = map_of (map (\<lambda>n. (fst n, fst (snd n))) ns) k"
proof (induction ns)
  case Nil
  then show ?case by (simp add: found_def)
next
  case (Cons n ns)
  have IH: "found ns k = map_of (map (\<lambda>n. (fst n, fst (snd n))) ns) k"
    using Cons by (simp add: sl_sorted_Cons)
  consider "fst n < k" | "fst n = k" | "k < fst n"
    by (metis linorder_less_linear)
  then show ?case
  proof cases
    case 1
    then have "fst n \<noteq> k"
      by auto
    then show ?thesis
      using IH 1 by (simp add: found_def)
  next
    case 2
    then show ?thesis
      by (simp add: found_def)
  next
    case 3
    have "k \<notin> fst ` set ns"
      using Cons.prems 3 by (auto simp: sl_sorted_Cons dest: less_trans)
    then have "map_of (map (\<lambda>n. (fst n, fst (snd n))) ns) k = None"
      by (simp add: map_of_eq_None_iff image_image)
    moreover have "\<not> fst n < k" "fst n \<noteq> k"
      using 3 by auto
    ultimately show ?thesis
      by (simp add: found_def)
  qed
qed

lemma take_length_dropWhile:
  "take (length ns - length (dropWhile P ns)) ns = takeWhile P ns"
proof -
  have "length ns - length (dropWhile P ns) = length (takeWhile P ns)"
    using takeWhile_dropWhile_id [of P ns] by (metis add_diff_cancel_right' length_append)
  then show ?thesis
    using takeWhile_dropWhile_id [of P ns] by (metis append_eq_conv_conj)
qed

text \<open>The nodes after \<open>put\<close>, in its two cases.\<close>

lemma SkipList_put_unfold:
  assumes "sl_sorted (nodes m)"
  shows "SkipList_put m r k v =
     (case dropWhile (\<lambda>n. fst n < k) (nodes m) of
        n # rest' \<Rightarrow>
          if fst n = k
          then m\<lparr>nodes := takeWhile (\<lambda>n. fst n < k) (nodes m) @ (k, v, snd (snd n)) # rest',
                  byteSize := byteSize m - int (byteLength (fst (snd n))) + int (byteLength v)\<rparr>
          else m\<lparr>nodes := takeWhile (\<lambda>n. fst n < k) (nodes m)
                             @ (k, v, randomLevel r 0 + 1) # dropWhile (\<lambda>n. fst n < k) (nodes m),
                  level := max (level m) (randomLevel r 0),
                  count := count m + 1,
                  byteSize := byteSize m + int (byteLength k + byteLength v)\<rparr>
      | [] \<Rightarrow>
          m\<lparr>nodes := takeWhile (\<lambda>n. fst n < k) (nodes m)
                       @ (k, v, randomLevel r 0 + 1) # dropWhile (\<lambda>n. fst n < k) (nodes m),
             level := max (level m) (randomLevel r 0),
             count := count m + 1,
             byteSize := byteSize m + int (byteLength k + byteLength v)\<rparr>)"
  unfolding SkipList_put_def Let_def descend_eq_dropWhile [OF assms] take_length_dropWhile
  by (rule refl)

lemma nodes_put_existing:
  assumes "sl_sorted (nodes m)" "dropWhile (\<lambda>n. fst n < k) (nodes m) = n # rest" "fst n = k"
  shows "SkipList_put m r k v =
           m\<lparr>nodes := takeWhile (\<lambda>n. fst n < k) (nodes m) @ (k, v, snd (snd n)) # rest,
              byteSize := byteSize m - int (byteLength (fst (snd n))) + int (byteLength v)\<rparr>"
  unfolding SkipList_put_unfold [OF assms(1)] assms(2) using assms(3) by simp

lemma nodes_put_new:
  assumes "sl_sorted (nodes m)" "found (nodes m) k = None"
  shows "SkipList_put m r k v =
           m\<lparr>nodes := takeWhile (\<lambda>n. fst n < k) (nodes m)
                        @ (k, v, randomLevel r 0 + 1) # dropWhile (\<lambda>n. fst n < k) (nodes m),
              level := max (level m) (randomLevel r 0),
              count := count m + 1,
              byteSize := byteSize m + int (byteLength k + byteLength v)\<rparr>"
proof (cases "dropWhile (\<lambda>n. fst n < k) (nodes m)")
  case Nil
  show ?thesis
    unfolding SkipList_put_unfold [OF assms(1)] by (simp add: Nil)
next
  case (Cons n rest)
  then have "fst n \<noteq> k"
    using assms(2) by (auto simp: found_def split: if_splits)
  then show ?thesis
    unfolding SkipList_put_unfold [OF assms(1)] by (simp add: Cons)
qed

lemma dropWhile_keys:
  assumes "sl_sorted ns" "dropWhile (\<lambda>n. fst n < k) ns = n # rest"
  shows "k \<le> fst n" "\<forall>x\<in>set rest. fst n < fst x" "sl_sorted (n # rest)"
    "\<forall>x\<in>set (takeWhile (\<lambda>n. fst n < k) ns). fst x < k"
proof -
  show "k \<le> fst n"
    using assms(2) by (metis dropWhile_eq_Cons_conv not_le_imp_less)
  have split: "ns = takeWhile (\<lambda>n. fst n < k) ns @ n # rest"
    using assms(2) takeWhile_dropWhile_id [of "\<lambda>n. fst n < k" ns] by simp
  then have "sl_sorted (takeWhile (\<lambda>n. fst n < k) ns @ n # rest)"
    using assms(1) by simp
  then show "sl_sorted (n # rest)" "\<forall>x\<in>set rest. fst n < fst x"
    by (simp_all add: sl_sorted_append sl_sorted_Cons)
  show "\<forall>x\<in>set (takeWhile (\<lambda>n. fst n < k) ns). fst x < k"
    by (auto dest: set_takeWhileD)
qed

lemma sl_sorted_put: "sl_sorted (nodes m) \<Longrightarrow> sl_sorted (nodes (SkipList_put m r k v))"
proof -
  assume inv: "sl_sorted (nodes m)"
  let ?T = "takeWhile (\<lambda>n. fst n < k) (nodes m)" and ?D = "dropWhile (\<lambda>n. fst n < k) (nodes m)"
  have T: "\<forall>x\<in>set ?T. fst x < k"
    by (auto dest: set_takeWhileD)
  have TD: "sl_sorted ?T" "sl_sorted ?D" "\<forall>x\<in>set ?T. \<forall>y\<in>set ?D. fst x < fst y"
    using inv sl_sorted_append [of ?T ?D] by simp_all
  show ?thesis
  proof (cases "found (nodes m) k")
    case None
    have D: "\<forall>x\<in>set ?D. k < fst x"
    proof (cases ?D)
      case Nil
      show ?thesis unfolding Nil by simp
    next
      case (Cons n rest)
      have "fst n \<noteq> k"
        using None Cons by (auto simp: found_def split: if_splits)
      then have "k < fst n"
        using dropWhile_keys(1) [OF inv Cons] by simp
      then show ?thesis
        using dropWhile_keys(2) [OF inv Cons] Cons by (auto intro: less_trans)
    qed
    have "sl_sorted (?T @ (k, v, randomLevel r 0 + 1) # ?D)"
      using TD T D by (auto simp: sl_sorted_append sl_sorted_Cons)
    then show ?thesis
      by (simp add: nodes_put_new [OF inv None])
  next
    case (Some old)
    then obtain n rest where D: "?D = n # rest" "fst n = k"
      by (auto simp: found_def split: list.splits if_splits)
    have "sl_sorted (?T @ (k, v, snd (snd n)) # rest)"
      using TD T D(2) unfolding D(1) by (auto simp: sl_sorted_append sl_sorted_Cons)
    then show ?thesis
      by (simp add: nodes_put_existing [OF inv D])
  qed
qed

lemma found_put:
  assumes "sl_sorted (nodes m)"
  shows "found (nodes (SkipList_put m r k v)) k' = (if k' = k then Some v else found (nodes m) k')"
proof -
  let ?T = "takeWhile (\<lambda>n. fst n < k) (nodes m)" and ?D = "dropWhile (\<lambda>n. fst n < k) (nodes m)"
  let ?e = "map (\<lambda>n. (fst n, fst (snd n)))"
  have T: "k \<notin> fst ` set (?e ?T)"
    by (auto dest: set_takeWhileD)
  have old: "found (nodes m) k' = (map_of (?e ?D) ++ map_of (?e ?T)) k'"
    using found_eq_map_of [OF assms, of k'] takeWhile_dropWhile_id [of "\<lambda>n. fst n < k" "nodes m"]
    by (metis map_append map_of_append)
  have new: "found (nodes (SkipList_put m r k v)) k'
             = map_of (?e (nodes (SkipList_put m r k v))) k'"
    by (rule found_eq_map_of) (rule sl_sorted_put [OF assms])
  have Tk: "map_of (?e ?T) k = None"
    using T by (simp add: map_of_eq_None_iff)
  show ?thesis
  proof (cases "found (nodes m) k")
    case None
    have "nodes (SkipList_put m r k v) = ?T @ (k, v, randomLevel r 0 + 1) # ?D"
      by (simp add: nodes_put_new [OF assms None])
    then have "found (nodes (SkipList_put m r k v)) k' = (map_of ((k, v) # ?e ?D) ++ map_of (?e ?T)) k'"
      unfolding new by (simp add: map_of_append)
    then show ?thesis
      using old Tk by (auto simp: map_add_def split: option.splits)
  next
    case (Some old_v)
    then obtain n rest where D: "?D = n # rest" "fst n = k"
      by (auto simp: found_def split: list.splits if_splits)
    have "nodes (SkipList_put m r k v) = ?T @ (k, v, snd (snd n)) # rest"
      by (simp add: nodes_put_existing [OF assms D])
    then have "found (nodes (SkipList_put m r k v)) k' = (map_of ((k, v) # ?e rest) ++ map_of (?e ?T)) k'"
      unfolding new by (simp add: map_of_append)
    then show ?thesis
      using old Tk D by (auto simp: map_add_def split: option.splits)
  qed
qed

lemma SkipList_get_put:
  "sl_sorted (nodes m) \<Longrightarrow>
   SkipList_get (SkipList_put m r k v) k' = (if k' = k then Some v else SkipList_get m k')"
  by (simp add: SkipList_get_found sl_sorted_put found_put)

lemma sl_sorted_replay:
  "sl_sorted (nodes m) \<Longrightarrow> sl_sorted (nodes (replay m recs rnds i))"
  by (induction m recs rnds i rule: replay.induct)
     (simp_all add: sl_sorted_put SkipList_delete_def)

lemma sl_sorted_new [simp]: "sl_sorted (nodes SkipList_new)"
  by (simp add: SkipList_new_def sl_sorted_def)

subsection \<open>MemTable: deleting a key it does not hold\<close>

lemma byteLength_TOMBSTONE: "byteLength TOMBSTONE = 13"
  by code_simp

lemma delete_absent:
  assumes "sl_sorted (nodes m)" "SkipList_get m k = None"
  shows "count (SkipList_delete m r k) = count m + 1"
    "byteSize (SkipList_delete m r k) = byteSize m + int (byteLength k) + int (byteLength TOMBSTONE)"
    "SkipList_get (SkipList_delete m r k) k' = (if k' = k then Some TOMBSTONE else SkipList_get m k')"
    "sl_sorted (nodes (SkipList_delete m r k))"
proof -
  have absent: "found (nodes m) k = None"
    using assms by (simp add: SkipList_get_found)
  show "count (SkipList_delete m r k) = count m + 1"
    "byteSize (SkipList_delete m r k) = byteSize m + int (byteLength k) + int (byteLength TOMBSTONE)"
    unfolding SkipList_delete_def nodes_put_new [OF assms(1) absent] by simp_all
  show "SkipList_get (SkipList_delete m r k) k' = (if k' = k then Some TOMBSTONE else SkipList_get m k')"
    unfolding SkipList_delete_def by (rule SkipList_get_put [OF assms(1)])
  show "sl_sorted (nodes (SkipList_delete m r k))"
    unfolding SkipList_delete_def by (rule sl_sorted_put [OF assms(1)])
qed

lemma delete_many_absent:
  assumes "sl_sorted (nodes m)" "distinct ks" "\<forall>k\<in>set ks. SkipList_get m k = None"
  shows "count (replay m (map (\<lambda>k. (''DELETE'', k, TOMBSTONE)) ks) rnds i) = count m + length ks
    \<and> byteSize (replay m (map (\<lambda>k. (''DELETE'', k, TOMBSTONE)) ks) rnds i)
        = byteSize m + (\<Sum>k\<leftarrow>ks. int (byteLength k) + int (byteLength TOMBSTONE))"
  using assms
proof (induction ks arbitrary: m i)
  case Nil
  then show ?case by simp
next
  case (Cons k ks)
  let ?m' = "SkipList_delete m (rnds i) k"
  have k: "SkipList_get m k = None"
    using Cons.prems(3) by simp
  note d = delete_absent [OF Cons.prems(1) k, of "rnds i"]
  have "\<forall>k'\<in>set ks. SkipList_get ?m' k' = None"
    using Cons.prems(2,3) by (auto simp: d(3))
  then have "count (replay ?m' (map (\<lambda>k. (''DELETE'', k, TOMBSTONE)) ks) rnds (i + 1))
               = count ?m' + length ks
    \<and> byteSize (replay ?m' (map (\<lambda>k. (''DELETE'', k, TOMBSTONE)) ks) rnds (i + 1))
        = byteSize ?m' + (\<Sum>k\<leftarrow>ks. int (byteLength k) + int (byteLength TOMBSTONE))"
    using Cons.prems(2) d(4) by (intro Cons.IH) simp_all
  then show ?case
    by (simp add: d(1,2))
qed

text \<open>
  Claim C9.  Let \<open>m\<close> be any MemTable reached from a new one by \<open>put\<close> and \<open>delete\<close>
  calls, and \<open>k\<close> a key \<open>m.get\<close> does not find.  Then \<open>delete(k)\<close> adds a node: \<open>count\<close>
  grows by 1 and \<open>size\<close> by the byte lengths of the key and of the tombstone; the
  MemTable now holds the tombstone for \<open>k\<close>, so the engine's \<open>get(k)\<close> reports the key
  absent whatever the tables hold; as long as the size stays below the flush threshold
  the engine's \<open>delete(k)\<close> is exactly this step after the log line is written; and
  deletes of distinct absent keys add up, one node and one tombstone each.
\<close>

theorem delete_absent_key_grows_memtable:
  assumes "m = replay SkipList_new recs rnds 0" "SkipList_get m k = None"
  shows "count (SkipList_delete m r k) = count m + 1
    \<and> byteSize (SkipList_delete m r k)
        = byteSize m + int (byteLength k) + int (byteLength TOMBSTONE)
    \<and> SkipList_get (SkipList_delete m r k) k = Some TOMBSTONE
    \<and> LSMTree_get \<lparr>memTable = SkipList_delete m r k, levels = lv, disk = d\<rparr> k = Inr None
    \<and> (byteSize (SkipList_delete m (rnd e) k) < MEMTABLE_SIZE_THRESHOLD \<longrightarrow>
         LSMTree_delete \<lparr>memTable = m, levels = lv, disk = d\<rparr> e k
         = Inr \<lparr>memTable = SkipList_delete m (rnd e) k, levels = lv,
                disk = WAL_append d walPath (walTime e) ''DELETE'' k TOMBSTONE\<rparr>)
    \<and> (distinct ks \<and> (\<forall>k'\<in>set ks. SkipList_get m k' = None) \<longrightarrow>
         count (replay m (map (\<lambda>k'. (''DELETE'', k', TOMBSTONE)) ks) rnds' i)
         = count m + length ks
         \<and> byteSize (replay m (map (\<lambda>k'. (''DELETE'', k', TOMBSTONE)) ks) rnds' i)
           = byteSize m + (\<Sum>k'\<leftarrow>ks. int (byteLength k') + int (byteLength TOMBSTONE)))"
proof -
  have inv: "sl_sorted (nodes m)"
    unfolding assms(1) by (rule sl_sorted_replay) simp
  note d = delete_absent [OF inv assms(2)]
  have "LSMTree_get \<lparr>memTable = SkipList_delete m r k, levels = lv, disk = d\<rparr> k = Inr None"
    by (simp add: LSMTree_get_def d(3))
  moreover have "LSMTree_delete \<lparr>memTable = m, levels = lv, disk = d\<rparr> e k
         = Inr \<lparr>memTable = SkipList_delete m (rnd e) k, levels = lv,
                disk = WAL_append d walPath (walTime e) ''DELETE'' k TOMBSTONE\<rparr>"
    if "byteSize (SkipList_delete m (rnd e) k) < MEMTABLE_SIZE_THRESHOLD"
    using that by (simp add: LSMTree_delete_def maybeFlush_def)
  ultimately show ?thesis
    using d(1,2,3) [of r] delete_many_absent [OF inv, of ks rnds' i] by simp
qed

text \<open>
  A MemTable holding the key "a": \<open>delete("b")\<close> makes two nodes of one, adds 1 + 13
  bytes to the 2 bytes held, and the engine reports "b" absent.
\<close>

theorem delete_absent_key_grows_memtable_witness:
  "SkipList_get (replay SkipList_new [(''PUT'', ''a'', ''1'')] no_promotion 0) ''b'' = None
   \<and> count (replay SkipList_new [(''PUT'', ''a'', ''1'')] no_promotion 0) = 1
   \<and> byteSize (replay SkipList_new [(''PUT'', ''a'', ''1'')] no_promotion 0) = 2
   \<and> count (SkipList_delete (replay SkipList_new [(''PUT'', ''a'', ''1'')] no_promotion 0)
        (\<lambda>n. False) ''b'') = 2
   \<and> byteSize (SkipList_delete (replay SkipList_new [(''PUT'', ''a'', ''1'')] no_promotion 0)
        (\<lambda>n. False) ''b'') = 16
   \<and> LSMTree_get
        \<lparr>memTable = SkipList_delete (replay SkipList_new [(''PUT'', ''a'', ''1'')] no_promotion 0)
                       (\<lambda>n. False) ''b'',
         levels = init_levels, disk = []\<rparr> ''b'' = Inr None"
proof -
  have h: "SkipList_get (replay SkipList_new [(''PUT'', ''a'', ''1'')] no_promotion 0) ''b'' = None"
    by code_simp
  have c: "count (replay SkipList_new [(''PUT'', ''a'', ''1'')] no_promotion 0) = 1"
    "byteSize (replay SkipList_new [(''PUT'', ''a'', ''1'')] no_promotion 0) = 2"
    "byteLength ''b'' = 1"
    by code_simp+
  show ?thesis
    using h c delete_absent_key_grows_memtable [OF refl h, of "\<lambda>n. False" init_levels "[]"]
    by (simp add: byteLength_TOMBSTONE)
qed

subsection \<open>Compaction: the tombstone policy and the place of the new table\<close>





subsection \<open>The engine after two compactions\<close>

text \<open>
  The run \<open>stale_read_scenario\<close>, evaluated: what \<open>get("k")\<close> returns and the files of
  levels 0 and 1, in the engine that made the run and in a new engine opened on its
  data directory.
\<close>

lemma stale_read_scenario_result:
  "(case run_ops (LSMTree_new [] no_promotion) stale_read_scenario of
      Inl e \<Rightarrow> None
    | Inr s \<Rightarrow>
        Some (LSMTree_get s ''k'',
              map path (tables_at (levels s) 0),
              map path (tables_at (levels s) 1),
              LSMTree_get (LSMTree_new (disk s) no_promotion) ''k'',
              map path (tables_at (levels (LSMTree_new (disk s) no_promotion)) 1)))
   = Some (Inr (Some ''1''), [],
           [''L1_1700000000008.sst'', ''L1_1700000000016.sst''],
           Inr (Some ''2''),
           [''L1_1700000000016.sst'', ''L1_1700000000008.sst''])"
  by code_simp

text \<open>
  Claim C1 (the code does not keep it).  In the run \<open>stale_read_scenario\<close> the last
  write of "k" is \<open>put("k", "2")\<close>; no later operation touches "k".  After the second
  compaction \<open>get("k")\<close> returns "1": \<open>Compaction.run\<close> appended the newer merged table
  behind the older one at level 1, and \<open>get\<close> reads a level from position 0 on.
\<close>

theorem get_returns_overwritten_value:
  "(case run_ops (LSMTree_new [] no_promotion) stale_read_scenario of
      Inl e \<Rightarrow> Inl e
    | Inr s \<Rightarrow> LSMTree_get s ''k'')
   = Inr (Some ''1'')"
  using stale_read_scenario_result by (simp split: sum.splits)

text \<open>
  Claim C2 (the code does not keep it).  After the run \<open>stale_read_scenario\<close> level 1
  holds two tables; position 0 is the table of the first compaction (clock
  1700000000008) and the last position the table of the second (clock 1700000000016):
  the newest table is at the back.
\<close>

theorem compaction_puts_new_table_last:
  "(case run_ops (LSMTree_new [] no_promotion) stale_read_scenario of
      Inl e \<Rightarrow> None
    | Inr s \<Rightarrow> Some (map path (tables_at (levels s) 1)))
   = Some [''L1_1700000000008.sst'', ''L1_1700000000016.sst'']"
  using stale_read_scenario_result by (simp split: sum.splits)

text \<open>
  Claim C3 (the code does not keep it).  First run: \<open>put("k", "v ")\<close> on an empty
  directory, no flush and no close; \<open>get("k")\<close> returns the value with its trailing
  space, and a new engine on the same directory returns it without, since the replay
  of the log trims the file.  Second run: after \<open>stale_read_scenario\<close> the engine
  returns "1" for "k", and a new engine on the same directory, which sorts the tables
  of level 1 by their timestamps, returns "2".
\<close>

theorem reopen_changes_get:
  "(case run_ops (LSMTree_new [] no_promotion) [(Put ''k'' ''v '', at_time 1700000000000)] of
      Inl e \<Rightarrow> None
    | Inr s \<Rightarrow>
        Some (LSMTree_get s ''k'', LSMTree_get (LSMTree_new (disk s) no_promotion) ''k''))
   = Some (Inr (Some ''v ''), Inr (Some ''v''))
   \<and> (case run_ops (LSMTree_new [] no_promotion) stale_read_scenario of
        Inl e \<Rightarrow> None
      | Inr s \<Rightarrow>
          Some (LSMTree_get s ''k'', LSMTree_get (LSMTree_new (disk s) no_promotion) ''k''))
     = Some (Inr (Some ''1''), Inr (Some ''2''))"
proof -
  have "(case run_ops (LSMTree_new [] no_promotion) [(Put ''k'' ''v '', at_time 1700000000000)] of
      Inl e \<Rightarrow> None
    | Inr s \<Rightarrow>
        Some (LSMTree_get s ''k'', LSMTree_get (LSMTree_new (disk s) no_promotion) ''k''))
   = Some (Inr (Some ''v ''), Inr (Some ''v''))"
    by code_simp
  then show ?thesis
    using stale_read_scenario_result by (simp split: sum.splits)
qed

subsection \<open>A table file with the empty key\<close>

text \<open>
  Claim C5 (the code does not keep it).  The entries \<open>("", "v")\<close> and \<open>("a", "1")\<close> are
  strictly ascending by key and within the length limits.  \<open>SSTableWriter.write\<close>
  writes the file and \<open>entries()\<close> of the opened file returns both entries, but
  \<open>get("")\<close> returns \<open>null\<close>: the Bloom filter of the file does not report the empty key
  that was added to it.  \<open>get("a")\<close> returns "1".
\<close>

theorem get_misses_empty_key:
  "(case SSTableWriter_write [] [('''', ''v''), (''a'', ''1'')] ''L0_1700000000000.sst'' of
      Inl e \<Rightarrow> None
    | Inr d \<Rightarrow>
        (case SSTableReader_open d ''L0_1700000000000.sst'' of
           Inl e \<Rightarrow> None
         | Inr r \<Rightarrow>
             Some (SSTableReader_entries r, SSTableReader_get r '''', SSTableReader_get r ''a'',
                   mightContain (bloom r) '''')))
   = Some (Inr [('''', ''v''), (''a'', ''1'')], Inr None, Inr (Some ''1''), False)"
  by code_simp

subsection \<open>Compaction: when tombstones are dropped\<close>

text \<open>One turn of the loop of \<open>Compaction.run\<close> is one step \<open>compact_level\<close>.\<close>

lemma run_loop_step:
  assumes "lvl < MAX_LEVELS - 1"
  shows "run_loop lv files now lvl
         = (case compact_level lv files (now lvl) lvl of
              Inl e \<Rightarrow> Inl e
            | Inr (lv', files') \<Rightarrow> run_loop lv' files' now (lvl + 1))"
  using assms by (subst run_loop.simps) simp






subsection \<open>The writer does not look at the order of its input\<close>














end
